theory Spec2Isabelle
  imports Complex_Main "HOL-Library.Word" "HOL-Library.Monad_Syntax"
begin

unbundle bit_operations_syntax

section \<open>Host values\<close>

text \<open>
  The program is a single React component (\<^verbatim>\<open>src/App.tsx\<close>) on top of the Web Audio
  API. Its numbers are IEEE doubles. For the encoder the model keeps the finite ones as
  rationals and has one extra value for \<^verbatim>\<open>NaN\<close>, which is also what \<^verbatim>\<open>undefined\<close>
  becomes in arithmetic. Every finite \<^verbatim>\<open>Float32Array\<close> element is a rational with a
  24-bit significand, so its products with \<^verbatim>\<open>0x8000\<close> and \<^verbatim>\<open>0x7FFF\<close> are exact in
  double precision: on the encoder the rational model loses nothing. Infinite samples
  are not represented. The arithmetic of the karaoke callback does round; it is the
  subject of the section on doubles.
\<close>

datatype jsnum = Num rat | NaN

fun Math_min :: "jsnum \<Rightarrow> jsnum \<Rightarrow> jsnum" where
  "Math_min (Num a) (Num b) = Num (min a b)"
| "Math_min _ _ = NaN"

fun Math_max :: "jsnum \<Rightarrow> jsnum \<Rightarrow> jsnum" where
  "Math_max (Num a) (Num b) = Num (max a b)"
| "Math_max _ _ = NaN"

fun js_lt :: "jsnum \<Rightarrow> jsnum \<Rightarrow> bool" where
  "js_lt (Num a) (Num b) = (a < b)"
| "js_lt _ _ = False"

fun js_mul :: "jsnum \<Rightarrow> jsnum \<Rightarrow> jsnum" where
  "js_mul (Num a) (Num b) = Num (a * b)"
| "js_mul _ _ = NaN"

text \<open>Strings are sequences of UTF-16 code units; \<open>str\<close> embeds an ASCII literal.\<close>

type_synonym jsstring = "nat list"

definition str :: "string \<Rightarrow> jsstring" where
  "str s = map of_char s"

definition charCodeAt :: "jsstring \<Rightarrow> nat \<Rightarrow> nat" where
  "charCodeAt s i = s ! i"

section \<open>DataView\<close>

text \<open>
  A \<^verbatim>\<open>DataView\<close> over a whole \<^verbatim>\<open>ArrayBuffer\<close> is the list of its bytes. Every setter
  raises \<^verbatim>\<open>RangeError\<close> (here \<open>None\<close>) when the access does not fit, converts its
  argument modulo the field width, and stores it in the byte order asked for.
\<close>

type_synonym byte = "8 word"
type_synonym view = "byte list"

definition bytes16 :: "16 word \<Rightarrow> bool \<Rightarrow> byte list" where
  "bytes16 w littleEndian =
     (let bs = [ucast w, ucast (drop_bit 8 w)] in if littleEndian then bs else rev bs)"

definition bytes32 :: "32 word \<Rightarrow> bool \<Rightarrow> byte list" where
  "bytes32 w littleEndian =
     (let bs = [ucast w, ucast (drop_bit 8 w), ucast (drop_bit 16 w), ucast (drop_bit 24 w)]
      in if littleEndian then bs else rev bs)"

fun store :: "view \<Rightarrow> nat \<Rightarrow> byte list \<Rightarrow> view" where
  "store v off [] = v"
| "store v off (b # bs) = store (v[off := b]) (Suc off) bs"

definition setBytes :: "view \<Rightarrow> nat \<Rightarrow> byte list \<Rightarrow> view option" where
  "setBytes v byteOffset bs =
     (if byteOffset + length bs \<le> length v then Some (store v byteOffset bs) else None)"

definition setUint8 :: "view \<Rightarrow> nat \<Rightarrow> nat \<Rightarrow> view option" where
  "setUint8 v byteOffset val = setBytes v byteOffset [word_of_nat val]"

definition setUint16 :: "view \<Rightarrow> nat \<Rightarrow> nat \<Rightarrow> bool \<Rightarrow> view option" where
  "setUint16 v byteOffset val littleEndian =
     setBytes v byteOffset (bytes16 (word_of_nat val) littleEndian)"

definition setUint32 :: "view \<Rightarrow> nat \<Rightarrow> nat \<Rightarrow> bool \<Rightarrow> view option" where
  "setUint32 v byteOffset val littleEndian =
     setBytes v byteOffset (bytes32 (word_of_nat val) littleEndian)"

text \<open>
  \<^verbatim>\<open>setInt16\<close> applies ToInt16: \<^verbatim>\<open>NaN\<close> becomes 0, a finite number is truncated
  towards zero and reduced modulo \<open>2 ^ 16\<close>.
\<close>

definition jsTruncate :: "rat \<Rightarrow> int" where
  "jsTruncate r = (if r < 0 then - \<lfloor>- r\<rfloor> else \<lfloor>r\<rfloor>)"

fun toInt16 :: "jsnum \<Rightarrow> 16 word" where
  "toInt16 NaN = 0"
| "toInt16 (Num r) = word_of_int (jsTruncate r)"

definition setInt16 :: "view \<Rightarrow> nat \<Rightarrow> jsnum \<Rightarrow> bool \<Rightarrow> view option" where
  "setInt16 v byteOffset val littleEndian =
     setBytes v byteOffset (bytes16 (toInt16 val) littleEndian)"

section \<open>The WAV encoder\<close>

text \<open>
  An \<^verbatim>\<open>AudioBuffer\<close> has a sample rate, a length in frames and one \<^verbatim>\<open>Float32Array\<close>
  per channel. Reading a typed array past its end gives \<^verbatim>\<open>undefined\<close>, which the
  arithmetic that follows turns into \<^verbatim>\<open>NaN\<close>.
\<close>

record AudioBuffer =
  sampleRate :: nat
  length_buf :: nat
  channels :: "rat list list"

definition numberOfChannels :: "AudioBuffer \<Rightarrow> nat" where
  "numberOfChannels buffer = length (channels buffer)"

definition getChannelData :: "AudioBuffer \<Rightarrow> nat \<Rightarrow> rat list" where
  "getChannelData buffer i = channels buffer ! i"

definition typedArrayGet :: "rat list \<Rightarrow> nat \<Rightarrow> jsnum" where
  "typedArrayGet arr i = (if i < length arr then Num (arr ! i) else NaN)"

function writeString_loop :: "view \<Rightarrow> nat \<Rightarrow> jsstring \<Rightarrow> nat \<Rightarrow> view option" where
  "writeString_loop v offset string i =
     (if i < length string
      then (case setUint8 v (offset + i) (charCodeAt string i) of
              None \<Rightarrow> None
            | Some v' \<Rightarrow> writeString_loop v' offset string (Suc i))
      else Some v)"
  by pat_completeness auto
termination
  by (relation "measure (\<lambda>(v, offset, string, i). length string - i)") auto

definition writeString :: "view \<Rightarrow> nat \<Rightarrow> jsstring \<Rightarrow> view option" where
  "writeString v offset string = writeString_loop v offset string 0"

definition quantize :: "jsnum \<Rightarrow> jsnum" where
  "quantize sample =
     (let s = Math_max (Num (- 1)) (Math_min (Num 1) sample)
      in if js_lt s (Num 0) then js_mul s (Num 32768) else js_mul s (Num 32767))"

function channelLoop ::
  "rat list list \<Rightarrow> nat \<Rightarrow> nat \<Rightarrow> view \<Rightarrow> nat \<Rightarrow> nat \<Rightarrow> (view \<times> nat) option" where
  "channelLoop channelData numChannels i v offset ch =
     (if ch < numChannels
      then (case setInt16 v offset (quantize (typedArrayGet (channelData ! ch) i)) True of
              None \<Rightarrow> None
            | Some v' \<Rightarrow> channelLoop channelData numChannels i v' (offset + 2) (Suc ch))
      else Some (v, offset))"
  by pat_completeness auto
termination
  by (relation "measure (\<lambda>(channelData, numChannels, i, v, offset, ch). numChannels - ch)") auto

function frameLoop ::
  "rat list list \<Rightarrow> nat \<Rightarrow> nat \<Rightarrow> view \<Rightarrow> nat \<Rightarrow> nat \<Rightarrow> (view \<times> nat) option" where
  "frameLoop channelData numChannels frames v offset i =
     (if i < frames
      then (case channelLoop channelData numChannels i v offset 0 of
              None \<Rightarrow> None
            | Some (v', offset') \<Rightarrow> frameLoop channelData numChannels frames v' offset' (Suc i))
      else Some (v, offset))"
  by pat_completeness auto
termination
  by (relation "measure (\<lambda>(channelData, numChannels, frames, v, offset, i). frames - i)") auto

text \<open>
  \<^verbatim>\<open>audioBufferToWav\<close>: the result is the content of the \<^verbatim>\<open>Blob\<close>, that is the bytes
  of the buffer under the view; \<open>None\<close> would be an exception escaping the function.
\<close>

definition audioBufferToWav :: "AudioBuffer \<Rightarrow> byte list option" where
  "audioBufferToWav buffer =
     (let numChannels = numberOfChannels buffer;
          rate = sampleRate buffer;
          format = 1;
          bitDepth = 16;
          len = length_buf buffer * numChannels * 2;
          bufferArray = replicate (44 + len) (0 :: byte)
      in do {
        v \<leftarrow> writeString bufferArray 0 (str ''RIFF'');
        v \<leftarrow> setUint32 v 4 (36 + len) True;
        v \<leftarrow> writeString v 8 (str ''WAVE'');
        v \<leftarrow> writeString v 12 (str ''fmt '');
        v \<leftarrow> setUint32 v 16 16 True;
        v \<leftarrow> setUint16 v 20 format True;
        v \<leftarrow> setUint16 v 22 numChannels True;
        v \<leftarrow> setUint32 v 24 rate True;
        v \<leftarrow> setUint32 v 28 (rate * numChannels * 2) True;
        v \<leftarrow> setUint16 v 32 (numChannels * 2) True;
        v \<leftarrow> setUint16 v 34 bitDepth True;
        v \<leftarrow> writeString v 36 (str ''data'');
        v \<leftarrow> setUint32 v 40 len True;
        let channelData = map (getChannelData buffer) [0 ..< numChannels];
        (v, offset) \<leftarrow> frameLoop channelData numChannels (length_buf buffer) v 44 0;
        Some v
      })"

section \<open>Reference layout of the encoder's output\<close>

text \<open>
  The functions of this section are not in the source. They describe, as plain list
  expressions, the bytes the encoder is expected to produce, and read fields back out of
  a byte sequence; the theorems compare them with \<open>audioBufferToWav\<close>.
\<close>

definition stringBytes :: "jsstring \<Rightarrow> byte list" where
  "stringBytes s = map word_of_nat s"

definition sampleBytes :: "jsnum \<Rightarrow> byte list" where
  "sampleBytes x = bytes16 (toInt16 (quantize x)) True"

definition frameBytes :: "rat list list \<Rightarrow> nat \<Rightarrow> nat \<Rightarrow> nat \<Rightarrow> byte list" where
  "frameBytes cd i ch n = concat (map (\<lambda>c. sampleBytes (typedArrayGet (cd ! c) i)) [ch ..< n])"

definition pcmBytes :: "rat list list \<Rightarrow> nat \<Rightarrow> nat \<Rightarrow> nat \<Rightarrow> byte list" where
  "pcmBytes cd n frames i = concat (map (\<lambda>j. frameBytes cd j 0 n) [i ..< frames])"

definition wavHeader :: "AudioBuffer \<Rightarrow> byte list" where
  "wavHeader buffer =
     (let n = numberOfChannels buffer; rate = sampleRate buffer; len = length_buf buffer * n * 2
      in stringBytes (str ''RIFF'') @ bytes32 (word_of_nat (36 + len)) True
         @ stringBytes (str ''WAVE'') @ stringBytes (str ''fmt '')
         @ bytes32 (word_of_nat 16) True @ bytes16 (word_of_nat 1) True
         @ bytes16 (word_of_nat n) True @ bytes32 (word_of_nat rate) True
         @ bytes32 (word_of_nat (rate * n * 2)) True @ bytes16 (word_of_nat (n * 2)) True
         @ bytes16 (word_of_nat 16) True @ stringBytes (str ''data'')
         @ bytes32 (word_of_nat len) True)"

fun le_nat :: "byte list \<Rightarrow> nat" where
  "le_nat [] = 0"
| "le_nat (b # bs) = unat b + 256 * le_nat bs"

definition le_int16 :: "byte list \<Rightarrow> int" where
  "le_int16 bs = sint (word_of_nat (le_nat bs) :: 16 word)"

definition bytesAt :: "byte list \<Rightarrow> nat \<Rightarrow> nat \<Rightarrow> byte list" where
  "bytesAt bs off n = take n (drop off bs)"

text \<open>The buffer with the sample of channel \<open>c\<close> at frame \<open>i\<close> replaced by \<open>x\<close>.\<close>

definition setSample :: "AudioBuffer \<Rightarrow> nat \<Rightarrow> nat \<Rightarrow> rat \<Rightarrow> AudioBuffer" where
  "setSample buffer c i x =
     buffer\<lparr>channels := (channels buffer)[c := (channels buffer ! c)[i := x]]\<rparr>"
section \<open>Double-precision arithmetic\<close>

text \<open>
  The karaoke callback subtracts, divides and multiplies numbers that are not small
  integers, so each of its operations rounds. A \<open>double\<close> is a finite number, the negative
  zero, an infinity or \<^verbatim>\<open>NaN\<close>; \<open>Finite 0\<close> is the positive zero. A finite result is rounded
  to the nearest number with a 53-bit significand, a tie going to the even significand
  (IEEE 754 binary64, the only rounding JavaScript has): \<open>fl\<close> rounds with an exponent
  that is unbounded above and stops at the subnormal spacing \<open>2 ^ - 1074\<close> below, and
  \<open>round64\<close> turns what \<open>fl\<close> puts at or beyond \<open>2 ^ 1024\<close> into an infinity and a negative
  number rounded to zero into the negative zero.

  \<open>binade x\<close> is the integer \<open>e\<close> with \<open>2 ^ e \<le> x < 2 ^ (e + 1)\<close>, for a positive \<open>x\<close>.
\<close>

datatype double = Finite rat | NegZero | PosInfinity | NegInfinity | NotANumber

function halvings :: "rat \<Rightarrow> nat" where
  "halvings x = (if x < 2 then 0 else Suc (halvings (x / 2)))"
  by pat_completeness auto
termination
proof (relation "measure (\<lambda>x. nat \<lfloor>x\<rfloor>)")
  fix x :: rat
  assume "\<not> x < 2"
  then have x: "2 \<le> x" by simp
  have "x / 2 + 1 \<le> x" using x by simp
  then have "\<lfloor>x / 2\<rfloor> + 1 \<le> \<lfloor>x\<rfloor>"
    by (metis floor_mono floor_add_int add.commute floor_one one_add_floor)
  moreover have "0 < \<lfloor>x\<rfloor>" using x by simp
  ultimately show "(x / 2, x) \<in> measure (\<lambda>x. nat \<lfloor>x\<rfloor>)" by simp
qed simp

function doublings :: "rat \<Rightarrow> nat" where
  "doublings x = (if x \<le> 0 \<or> 1 \<le> x then 0 else Suc (doublings (2 * x)))"
  by pat_completeness auto
termination
proof (relation "measure (\<lambda>x. nat \<lceil>1 / x\<rceil>)")
  fix x :: rat
  assume "\<not> (x \<le> 0 \<or> 1 \<le> x)"
  then have x: "0 < x" "x < 1" by simp_all
  have "1 < 1 / x" using x by simp
  then have c: "2 \<le> \<lceil>1 / x\<rceil>" by linarith
  have "1 / (2 * x) = (1 / x) / 2" by simp
  also have "\<dots> \<le> of_int \<lceil>1 / x\<rceil> / 2" by (simp add: divide_right_mono)
  also have "\<dots> \<le> of_int (\<lceil>1 / x\<rceil> - 1)" using c by simp
  finally have "1 / (2 * x) \<le> of_int (\<lceil>1 / x\<rceil> - 1)" .
  then have "\<lceil>1 / (2 * x)\<rceil> \<le> \<lceil>1 / x\<rceil> - 1" by (rule ceiling_le)
  then show "(2 * x, x) \<in> measure (\<lambda>x. nat \<lceil>1 / x\<rceil>)" using c x by simp
qed simp

declare halvings.simps [simp del] doublings.simps [simp del]

definition binade :: "rat \<Rightarrow> int" where
  "binade x = (if 1 \<le> x then int (halvings x) else - int (doublings x))"

definition roundTiesToEven :: "rat \<Rightarrow> int" where
  "roundTiesToEven m =
     (let f = \<lfloor>m\<rfloor>; r = m - of_int f
      in if r < 1 / 2 then f else if 1 / 2 < r then f + 1 else if even f then f else f + 1)"

definition fl :: "rat \<Rightarrow> rat" where
  "fl x =
     (if x = 0 then 0
      else let q = max (binade \<bar>x\<bar> - 52) (- 1074)
           in of_int (roundTiesToEven (x / 2 powi q)) * 2 powi q)"

definition round64 :: "rat \<Rightarrow> double" where
  "round64 r =
     (let y = fl r
      in if 2 ^ 1024 \<le> \<bar>y\<bar> then (if r < 0 then NegInfinity else PosInfinity)
         else if y = 0 \<and> r < 0 then NegZero
         else Finite y)"

text \<open>
  The value and the sign of a double, and the zero and the infinity of a given sign. An
  operation on finite numbers rounds the exact result; a zero result of a subtraction is
  negative only for \<open>-0 - +0\<close>; a product or quotient that involves a zero or an infinity
  has the sign that the signs of its operands give; \<open>0 * \<infinity>\<close>, \<open>\<infinity> - \<infinity>\<close>, \<open>0 / 0\<close> and
  \<open>\<infinity> / \<infinity>\<close> are \<^verbatim>\<open>NaN\<close>, as is every operation on a \<^verbatim>\<open>NaN\<close>. A comparison with \<^verbatim>\<open>NaN\<close>
  is false, and the two zeros are equal. \<^verbatim>\<open>Math.min\<close> takes the negative zero for the
  smaller zero.
\<close>

fun val64 :: "double \<Rightarrow> rat" where
  "val64 (Finite r) = r"
| "val64 _ = 0"

fun neg64 :: "double \<Rightarrow> bool" where
  "neg64 (Finite r) = (r < 0)"
| "neg64 NegZero = True"
| "neg64 NegInfinity = True"
| "neg64 _ = False"

definition isZero64 :: "double \<Rightarrow> bool" where
  "isZero64 d = (d = Finite 0 \<or> d = NegZero)"

definition isInf64 :: "double \<Rightarrow> bool" where
  "isInf64 d = (d = PosInfinity \<or> d = NegInfinity)"

definition zero64 :: "bool \<Rightarrow> double" where
  "zero64 negative = (if negative then NegZero else Finite 0)"

definition inf64 :: "bool \<Rightarrow> double" where
  "inf64 negative = (if negative then NegInfinity else PosInfinity)"

definition sub64 :: "double \<Rightarrow> double \<Rightarrow> double" where
  "sub64 a b =
     (if a = NotANumber \<or> b = NotANumber then NotANumber
      else if isInf64 a then (if b = a then NotANumber else a)
      else if isInf64 b then inf64 (\<not> neg64 b)
      else if val64 a - val64 b = 0 then zero64 (a = NegZero \<and> b = Finite 0)
      else round64 (val64 a - val64 b))"

definition mul64 :: "double \<Rightarrow> double \<Rightarrow> double" where
  "mul64 a b =
     (if a = NotANumber \<or> b = NotANumber then NotANumber
      else if isInf64 a \<or> isInf64 b
      then (if isZero64 a \<or> isZero64 b then NotANumber else inf64 (neg64 a \<noteq> neg64 b))
      else if isZero64 a \<or> isZero64 b then zero64 (neg64 a \<noteq> neg64 b)
      else round64 (val64 a * val64 b))"

definition div64 :: "double \<Rightarrow> double \<Rightarrow> double" where
  "div64 a b =
     (if a = NotANumber \<or> b = NotANumber then NotANumber
      else if isInf64 a then (if isInf64 b then NotANumber else inf64 (neg64 a \<noteq> neg64 b))
      else if isInf64 b then zero64 (neg64 a \<noteq> neg64 b)
      else if isZero64 b then (if isZero64 a then NotANumber else inf64 (neg64 a \<noteq> neg64 b))
      else if isZero64 a then zero64 (neg64 a \<noteq> neg64 b)
      else round64 (val64 a / val64 b))"

definition lt64 :: "double \<Rightarrow> double \<Rightarrow> bool" where
  "lt64 a b =
     (if a = NotANumber \<or> b = NotANumber then False
      else if a = PosInfinity \<or> b = NegInfinity then False
      else if b = PosInfinity \<or> a = NegInfinity then True
      else val64 a < val64 b)"

definition Math_min64 :: "double \<Rightarrow> double \<Rightarrow> double" where
  "Math_min64 a b =
     (if a = NotANumber \<or> b = NotANumber then NotANumber
      else if lt64 b a then b
      else if lt64 a b then a
      else if a = NegZero then a else b)"

fun Math_floor :: "double \<Rightarrow> double" where
  "Math_floor (Finite r) = Finite (of_int \<lfloor>r\<rfloor>)"
| "Math_floor d = d"


section \<open>The audio host\<close>

text \<open>
  The component drives three host facilities: Web Audio source nodes and one filter
  node, the clock of the audio context, and the animation-frame callbacks of the window.
  A node is identified by its position in the list of nodes ever created. A source node
  is \<open>Unstarted\<close> until \<^verbatim>\<open>start()\<close>, then \<open>Playing\<close>; \<^verbatim>\<open>stop()\<close> makes it \<open>Stopped\<close>, and
  the \<^verbatim>\<open>ended\<close> event, which follows a stop or the natural end of the buffer, makes it
  \<open>Ended\<close> and runs the \<^verbatim>\<open>onended\<close> handler. \<open>stopLog\<close> records on which nodes
  \<^verbatim>\<open>stop()\<close> was called; it is a trace, not a part of the host's state.

  All audio contexts of the page are driven by the same clock, \<open>currentTime\<close>; a context
  is an opaque identifier. A node does not record the context that created it:
  \<^verbatim>\<open>connect()\<close> between nodes of two contexts, which a browser refuses, is not
  modelled.
\<close>

datatype playState = Unstarted | Playing | Stopped | Ended

datatype DOMException = InvalidStateError

record SourceNode =
  srcBuffer :: "AudioBuffer option"
  srcRate :: rat
  srcDetune :: rat
  srcDest :: "nat option"
  srcOnended :: bool
  srcState :: playState

record FilterNode =
  fType :: string
  fFrequency :: rat
  fQ :: rat
  fGain :: rat
  fToDestination :: bool

text \<open>
  What the callback \<^verbatim>\<open>updateKaraoke\<close> captures from the effect that created it: the words
  and the effective duration.
\<close>

record KaraokeClosure =
  kWords :: "jsstring list"
  kDuration :: double

record Host =
  sources :: "SourceNode list"
  filters :: "FilterNode list"
  currentTime :: rat
  stopLog :: "nat list"
  rafQueue :: "(nat \<times> KaraokeClosure) list"
  nextFrame :: nat

definition updSource :: "nat \<Rightarrow> (SourceNode \<Rightarrow> SourceNode) \<Rightarrow> Host \<Rightarrow> Host" where
  "updSource p f h = h\<lparr>sources := (sources h)[p := f (sources h ! p)]\<rparr>"

definition updFilter :: "nat \<Rightarrow> (FilterNode \<Rightarrow> FilterNode) \<Rightarrow> Host \<Rightarrow> Host" where
  "updFilter q f h = h\<lparr>filters := (filters h)[q := f (filters h ! q)]\<rparr>"

definition createBufferSource :: "Host \<Rightarrow> nat \<times> Host" where
  "createBufferSource h =
     (length (sources h),
      h\<lparr>sources := sources h @ [\<lparr>srcBuffer = None, srcRate = 1, srcDetune = 0, srcDest = None,
                                   srcOnended = False, srcState = Unstarted\<rparr>]\<rparr>)"

definition createBiquadFilter :: "Host \<Rightarrow> nat \<times> Host" where
  "createBiquadFilter h =
     (length (filters h),
      h\<lparr>filters := filters h @ [\<lparr>fType = ''lowpass'', fFrequency = 350, fQ = 1, fGain = 0,
                                   fToDestination = False\<rparr>]\<rparr>)"

text \<open>
  \<^verbatim>\<open>start()\<close> on a node that was never started. \<^verbatim>\<open>stop()\<close> raises on a node that was never
  started, ends a playing one, and does nothing to one that has stopped or ended.
\<close>

definition start :: "nat \<Rightarrow> Host \<Rightarrow> Host" where
  "start p h =
     updSource p (\<lambda>n. if srcState n = Unstarted then n\<lparr>srcState := Playing\<rparr> else n) h"

definition stop :: "nat \<Rightarrow> Host \<Rightarrow> Host \<times> DOMException option" where
  "stop p h =
     (let h' = h\<lparr>stopLog := stopLog h @ [p]\<rparr>
      in if p < length (sources h) \<and> srcState (sources h ! p) \<noteq> Unstarted
         then (updSource p (\<lambda>n. if srcState n = Playing then n\<lparr>srcState := Stopped\<rparr> else n) h',
               None)
         else (h', Some InvalidStateError))"

text \<open>\<^verbatim>\<open>try { ... } catch(e) {}\<close>: the exception is dropped.\<close>

definition try_catch :: "Host \<times> DOMException option \<Rightarrow> Host" where
  "try_catch r = fst r"

definition requestAnimationFrame :: "KaraokeClosure \<Rightarrow> Host \<Rightarrow> nat \<times> Host" where
  "requestAnimationFrame callback h =
     (nextFrame h, h\<lparr>rafQueue := rafQueue h @ [(nextFrame h, callback)], nextFrame := Suc (nextFrame h)\<rparr>)"

definition cancelAnimationFrame :: "nat \<Rightarrow> Host \<Rightarrow> Host" where
  "cancelAnimationFrame handle h = h\<lparr>rafQueue := filter (\<lambda>(i, callback). i \<noteq> handle) (rafQueue h)\<rparr>"

section \<open>The component\<close>

text \<open>
  The state of \<^verbatim>\<open>App\<close> that the playback engine uses: the React state variables and the
  two refs. A handler is a function of the component's state and of the host; it returns
  both updated. \<open>audioBuffer\<close> is compared by value where React compares by identity.

  A function declared in the body of the component is created anew by every render and
  reads the state variables of that render; its setters and the two refs act on the
  state that is current when it runs. A function that the page calls on a click runs in
  the render that is current, and one state serves for both. \<^verbatim>\<open>playAudio\<close> is called
  from the continuation of \<^verbatim>\<open>handleSynthesis\<close>, after the render that created it may have
  been replaced: the state \<open>r\<close> of that render is its first argument.
\<close>

record App =
  text' :: jsstring
  playbackRate :: rat
  pitchShift :: rat
  emphasis :: rat
  audioContext :: "nat option"
  sourceNode :: "nat option"
  filterNode :: "nat option"
  isPlaying :: bool
  audioBuffer :: "AudioBuffer option"
  currentWordIndex :: double
  startTimeRef :: rat
  animationFrameRef :: nat

type_synonym handler = "App \<times> Host \<Rightarrow> App \<times> Host"

definition setPlaybackRate :: "rat \<Rightarrow> handler" where
  "setPlaybackRate v = (\<lambda>(s, h). (s\<lparr>playbackRate := v\<rparr>, h))"

definition setPitchShift :: "rat \<Rightarrow> handler" where
  "setPitchShift v = (\<lambda>(s, h). (s\<lparr>pitchShift := v\<rparr>, h))"

definition setEmphasis :: "rat \<Rightarrow> handler" where
  "setEmphasis v = (\<lambda>(s, h). (s\<lparr>emphasis := v\<rparr>, h))"

definition setText :: "jsstring \<Rightarrow> handler" where
  "setText v = (\<lambda>(s, h). (s\<lparr>text' := v\<rparr>, h))"

definition setAudioBuffer :: "AudioBuffer option \<Rightarrow> handler" where
  "setAudioBuffer v = (\<lambda>(s, h). (s\<lparr>audioBuffer := v\<rparr>, h))"

definition setAudioContext :: "nat option \<Rightarrow> handler" where
  "setAudioContext v = (\<lambda>(s, h). (s\<lparr>audioContext := v\<rparr>, h))"

definition playAudio :: "App \<Rightarrow> AudioBuffer option \<Rightarrow> nat option \<Rightarrow> handler" where
  "playAudio r buffer ctx = (\<lambda>(s, h).
     case (buffer, ctx) of
       (Some b, Some c) \<Rightarrow>
         let h1 = (case sourceNode r of None \<Rightarrow> h | Some p \<Rightarrow> try_catch (stop p h));
             (filter', s1, h2) =
               (case filterNode r of
                  Some f \<Rightarrow> (f, s, h1)
                | None \<Rightarrow>
                    let (f, h') = createBiquadFilter h1;
                        h'' = updFilter f (\<lambda>n. n\<lparr>fType := ''peaking'', fFrequency := 3000,
                                                   fQ := 1, fToDestination := True\<rparr>) h'
                    in (f, s\<lparr>filterNode := Some f\<rparr>, h''));
             (source, h3) = createBufferSource h2;
             h4 = updSource source (\<lambda>n. n\<lparr>srcBuffer := Some b, srcRate := playbackRate r,
                                            srcDetune := pitchShift r, srcDest := Some filter',
                                            srcOnended := True\<rparr>) h3;
             s2 = s1\<lparr>startTimeRef := currentTime h4\<rparr>;
             h5 = start source h4
         in (s2\<lparr>sourceNode := Some source, isPlaying := True\<rparr>, h5)
     | _ \<Rightarrow> (s, h))"

definition handleStop :: handler where
  "handleStop = (\<lambda>(s, h).
     case sourceNode s of
       None \<Rightarrow> (s, h)
     | Some p \<Rightarrow> (s\<lparr>isPlaying := False\<rparr>, try_catch (stop p h)))"

text \<open>
  The \<^verbatim>\<open>ended\<close> event of node \<open>p\<close>, delivered after a stop or at the natural end of the
  buffer; the handler registered by \<^verbatim>\<open>playAudio\<close> is \<^verbatim>\<open>() => setIsPlaying(false)\<close>.
\<close>

definition ended :: "nat \<Rightarrow> handler" where
  "ended p = (\<lambda>(s, h).
     if p < length (sources h) \<and> srcState (sources h ! p) \<in> {Playing, Stopped}
     then (if srcOnended (sources h ! p) then s\<lparr>isPlaying := False\<rparr> else s,
           updSource p (\<lambda>n. n\<lparr>srcState := Ended\<rparr>) h)
     else (s, h))"

subsection \<open>The transcript\<close>

text \<open>
  \<^verbatim>\<open>text.replace(/<[^>]*>/g, '').split(/\s+/)\<close>. A tag runs from a \<^verbatim>\<open><\<close> to the next
  \<^verbatim>\<open>>\<close>; a \<^verbatim>\<open><\<close> with no \<^verbatim>\<open>>\<close> after it stays. Splitting cuts at every maximal run of
  white space, so that white space at either end gives an empty first or last word and
  the empty text gives one empty word.
\<close>

function stripTags :: "jsstring \<Rightarrow> jsstring" where
  "stripTags [] = []"
| "stripTags (c # cs) =
     (if c = 60 \<and> 62 \<in> set cs then stripTags (tl (dropWhile (\<lambda>x. x \<noteq> 62) cs))
      else c # stripTags cs)"
  by pat_completeness auto
termination
proof (relation "measure length")
  fix c :: nat and cs :: "nat list"
  have "length (tl (dropWhile (\<lambda>x. x \<noteq> 62) cs)) \<le> length cs"
    using length_dropWhile_le[of "\<lambda>x. x \<noteq> 62" cs] by simp
  then show "(tl (dropWhile (\<lambda>x. x \<noteq> 62) cs), c # cs) \<in> measure length" by simp
qed simp_all

definition isWhiteSpace :: "nat \<Rightarrow> bool" where
  "isWhiteSpace c =
     (c \<in> {9, 10, 11, 12, 13, 32, 160, 5760, 8232, 8233, 8239, 8287, 12288, 65279}
      \<or> (8192 \<le> c \<and> c \<le> 8202))"

fun splitLoop :: "bool \<Rightarrow> jsstring \<Rightarrow> jsstring \<Rightarrow> jsstring list" where
  "splitLoop inSpace acc [] = [rev acc]"
| "splitLoop inSpace acc (c # cs) =
     (if isWhiteSpace c
      then (if inSpace then splitLoop True acc cs else rev acc # splitLoop True [] cs)
      else splitLoop False (c # acc) cs)"

definition split_ws :: "jsstring \<Rightarrow> jsstring list" where
  "split_ws s = splitLoop False [] s"

subsection \<open>Effects and events\<close>

text \<open>
  The effect that writes the parameters to the nodes. Assigning to the value of an
  \<^verbatim>\<open>AudioParam\<close> does not raise.
\<close>

definition paramEffect :: "App \<Rightarrow> Host \<Rightarrow> Host" where
  "paramEffect s h =
     (let h1 = (case sourceNode s of
                  None \<Rightarrow> h
                | Some p \<Rightarrow> updSource p (\<lambda>n. n\<lparr>srcRate := playbackRate s,
                                                 srcDetune := pitchShift s\<rparr>) h)
      in case filterNode s of
           None \<Rightarrow> h1
         | Some f \<Rightarrow> updFilter f (\<lambda>n. n\<lparr>fGain := emphasis s\<rparr>) h1)"

text \<open>
  The attribute \<^verbatim>\<open>duration\<close> of a buffer: its length over its sample rate, as a double.
\<close>

definition duration :: "AudioBuffer \<Rightarrow> double" where
  "duration buffer =
     div64 (Finite (of_nat (length_buf buffer))) (Finite (of_nat (sampleRate buffer)))"

text \<open>
  One run of the callback, in the arithmetic of the section on doubles. The clock of the
  context and the start time kept in the ref are finite doubles, as are the values of
  the sliders; the duration held by the closure and the index may be any double.
\<close>

definition updateKaraoke :: "KaraokeClosure \<Rightarrow> handler" where
  "updateKaraoke k = (\<lambda>(s, h).
     let elapsed = sub64 (Finite (currentTime h)) (Finite (startTimeRef s));
         progress = Math_min64 (Finite 1) (div64 elapsed (kDuration k));
         index = Math_floor (mul64 progress (Finite (of_nat (length (kWords k)))));
         s1 = s\<lparr>currentWordIndex := index\<rparr>
     in if lt64 elapsed (kDuration k)
        then (let (handle, h1) = requestAnimationFrame k h
              in (s1\<lparr>animationFrameRef := handle\<rparr>, h1))
        else (s1, h))"

text \<open>
  The karaoke effect, preceded by the cleanup of its previous run.
\<close>

definition karaokeEffect :: handler where
  "karaokeEffect = (\<lambda>(s, h).
     let h0 = cancelAnimationFrame (animationFrameRef s) h
     in case (isPlaying s, audioBuffer s, audioContext s) of
          (True, Some b, Some c) \<Rightarrow>
            let words = split_ws (stripTags (text' s));
                d = div64 (duration b) (Finite (playbackRate s));
                (handle, h1) = requestAnimationFrame \<lparr>kWords = words, kDuration = d\<rparr> h0
            in (s\<lparr>animationFrameRef := handle\<rparr>, h1)
        | _ \<Rightarrow>
            (s\<lparr>currentWordIndex := Finite (- 1)\<rparr>,
             cancelAnimationFrame (animationFrameRef s) h0))"

definition paramDeps :: "App \<Rightarrow> rat \<times> rat \<times> rat \<times> nat option \<times> nat option" where
  "paramDeps s = (playbackRate s, pitchShift s, emphasis s, sourceNode s, filterNode s)"

definition karaokeDeps ::
  "App \<Rightarrow> bool \<times> nat option \<times> AudioBuffer option \<times> jsstring \<times> rat" where
  "karaokeDeps s = (isPlaying s, audioContext s, audioBuffer s, text' s, playbackRate s)"

text \<open>
  After a handler has run, React renders again and runs, in the order of their
  declaration, the effects of which a dependency differs from the previous render.
  \<open>dispatch\<close> is one event: the handler, then the effects.
\<close>

definition commit :: "App \<Rightarrow> handler" where
  "commit prev = (\<lambda>(s, h).
     let h1 = (if paramDeps s \<noteq> paramDeps prev then paramEffect s h else h)
     in if karaokeDeps s \<noteq> karaokeDeps prev then karaokeEffect (s, h1) else (s, h1))"

definition dispatch :: "handler \<Rightarrow> handler" where
  "dispatch handler = (\<lambda>(s, h). commit s (handler (s, h)))"

text \<open>
  The two events of the host that need no handler of their own: time passes, and the
  window runs the animation-frame callbacks that are pending.
\<close>

definition advance :: "rat \<Rightarrow> handler" where
  "advance dt = (\<lambda>(s, h). (s, h\<lparr>currentTime := currentTime h + dt\<rparr>))"

definition animationFrame :: handler where
  "animationFrame = (\<lambda>(s, h).
     fold (\<lambda>(handle, k). updateKaraoke k) (rafQueue h) (s, h\<lparr>rafQueue := []\<rparr>))"

definition initialApp :: App where
  "initialApp =
     \<lparr>text' = [], playbackRate = 1, pitchShift = 0, emphasis = 0, audioContext = None,
      sourceNode = None, filterNode = None, isPlaying = False, audioBuffer = None,
      currentWordIndex = Finite (- 1), startTimeRef = 0, animationFrameRef = 0\<rparr>"

definition initialHost :: Host where
  "initialHost =
     \<lparr>sources = [], filters = [], currentTime = 0, stopLog = [], rafQueue = [], nextFrame = 1\<rparr>"

section \<open>Notions used to state the playback properties\<close>

text \<open>
  Not in the source: the clamp of the specification; the index a callback computes when
  the exact difference of clock and start time is \<open>e\<close>; the progress it computes, as a
  rational, for a positive finite duration \<open>D\<close> and a non-negative \<open>e\<close>; a list of cursor
  values in which each is equal to or less than every later one, and one in which none
  is less than an earlier one; the cursor values seen
  after each of a series of animation frames that are \<open>dt\<close> seconds apart; and the sources
  that are playing.
\<close>

definition clamp :: "rat \<Rightarrow> rat \<Rightarrow> rat \<Rightarrow> rat" where
  "clamp x lo hi = max lo (min hi x)"

definition indexAt :: "KaraokeClosure \<Rightarrow> rat \<Rightarrow> double" where
  "indexAt k e =
     Math_floor (mul64 (Math_min64 (Finite 1) (div64 (round64 e) (kDuration k)))
                       (Finite (of_nat (length (kWords k)))))"

definition progressAt :: "rat \<Rightarrow> rat \<Rightarrow> rat" where
  "progressAt D e = (if 2 ^ 1024 \<le> fl e then 1 else min 1 (fl (fl e / D)))"



fun karaokeRun :: "rat list \<Rightarrow> App \<times> Host \<Rightarrow> double list" where
  "karaokeRun [] x = []"
| "karaokeRun (dt # dts) x =
     (let x' = animationFrame (advance dt x)
      in currentWordIndex (fst x') # karaokeRun dts x')"

definition active :: "Host \<Rightarrow> nat list" where
  "active h = filter (\<lambda>p. srcState (sources h ! p) = Playing) [0 ..< length (sources h)]"

text \<open>
  \<^verbatim>\<open>playAudio\<close> called by the render that is current, as the play button of the variant
  of the component in \<^verbatim>\<open>src/unnamed/part_000\<close> calls it.
\<close>

definition playNow :: "AudioBuffer option \<Rightarrow> nat option \<Rightarrow> handler" where
  "playNow buffer ctx = (\<lambda>(s, h). playAudio s buffer ctx (s, h))"

text \<open>
  The events of the sequential runs of the engine: each handler is called by the render
  that is current and is followed by the effects; the clock never goes back. These are
  the runs in which no call of \<^verbatim>\<open>playAudio\<close> comes from a continuation whose render has
  been replaced; the runs of the page with its asynchronous handlers are those of
  \<open>perform\<close>, further down.
\<close>

datatype event =
    PlayAudio "AudioBuffer option" "nat option"
  | HandleStop
  | SourceEnded nat
  | SetPlaybackRate rat
  | SetPitchShift rat
  | SetEmphasis rat
  | SetText jsstring
  | SetAudioBuffer "AudioBuffer option"
  | SetAudioContext "nat option"
  | Advance rat
  | AnimationFrame

fun fire :: "event \<Rightarrow> handler" where
  "fire (PlayAudio b c) = dispatch (playNow b c)"
| "fire HandleStop = dispatch handleStop"
| "fire (SourceEnded p) = dispatch (ended p)"
| "fire (SetPlaybackRate v) = dispatch (setPlaybackRate v)"
| "fire (SetPitchShift v) = dispatch (setPitchShift v)"
| "fire (SetEmphasis v) = dispatch (setEmphasis v)"
| "fire (SetText v) = dispatch (setText v)"
| "fire (SetAudioBuffer v) = dispatch (setAudioBuffer v)"
| "fire (SetAudioContext v) = dispatch (setAudioContext v)"
| "fire (Advance dt) = advance dt"
| "fire AnimationFrame = animationFrame"

fun admissible :: "event \<Rightarrow> bool" where
  "admissible (Advance dt) = (0 \<le> dt)"
| "admissible _ = True"

inductive reachable :: "App \<times> Host \<Rightarrow> bool" where
  init: "reachable (initialApp, initialHost)"
| step: "reachable x \<Longrightarrow> admissible e \<Longrightarrow> reachable (fire e x)"

text \<open>
  What holds of every reachable state: a playing source is the one the component refers
  to; the component's node references are nodes that exist, and the source it refers to
  was started by \<^verbatim>\<open>playAudio\<close>; while \<open>isPlaying\<close> holds a source is playing; the cursor
  is -1 when \<open>isPlaying\<close> does not hold; at most one callback is pending, under the handle
  kept in the ref, and only while \<open>isPlaying\<close> holds; the start time is not in the future.
\<close>

definition invariant :: "App \<times> Host \<Rightarrow> bool" where
  "invariant = (\<lambda>(s, h).
     (\<forall>p < length (sources h). srcState (sources h ! p) = Playing \<longrightarrow> sourceNode s = Some p)
     \<and> (\<forall>p. sourceNode s = Some p \<longrightarrow>
            p < length (sources h) \<and> srcState (sources h ! p) \<noteq> Unstarted
            \<and> srcOnended (sources h ! p))
     \<and> (\<forall>f. filterNode s = Some f \<longrightarrow> f < length (filters h))
     \<and> (isPlaying s \<longrightarrow> active h \<noteq> [])
     \<and> (\<not> isPlaying s \<longrightarrow> currentWordIndex s = Finite (- 1))
     \<and> (rafQueue h = [] \<or> (isPlaying s \<and> (\<exists>k. rafQueue h = [(animationFrameRef s, k)])))
     \<and> startTimeRef s \<le> currentTime h)"


text \<open>
  A worked playback: four words, a buffer of four seconds at 24000 Hz, rate 1. \<open>demoReady\<close>
  is the component with text, context and buffer set; \<open>demoPlaying\<close> is the state right
  after \<^verbatim>\<open>playAudio\<close>; \<open>demoEnded\<close> the state after the source has ended.
\<close>

definition demoBuffer :: AudioBuffer where
  "demoBuffer = \<lparr>sampleRate = 24000, length_buf = 96000, channels = [replicate 96000 0]\<rparr>"

definition demoReady :: "App \<times> Host" where
  "demoReady = (initialApp\<lparr>text' := str ''A B C D'', audioContext := Some 0,
                            audioBuffer := Some demoBuffer\<rparr>, initialHost)"

definition demoClosure :: KaraokeClosure where
  "demoClosure =
     \<lparr>kWords = [str ''A'', str ''B'', str ''C'', str ''D''], kDuration = Finite 4\<rparr>"

definition demoPlaying :: "App \<times> Host" where
  "demoPlaying =
     (\<lparr>text' = str ''A B C D'', playbackRate = 1, pitchShift = 0, emphasis = 0,
       audioContext = Some 0, sourceNode = Some 0, filterNode = Some 0, isPlaying = True,
       audioBuffer = Some demoBuffer, currentWordIndex = Finite (- 1), startTimeRef = 0,
       animationFrameRef = 1\<rparr>,
      \<lparr>sources = [\<lparr>srcBuffer = Some demoBuffer, srcRate = 1, srcDetune = 0, srcDest = Some 0,
                    srcOnended = True, srcState = Playing\<rparr>],
       filters = [\<lparr>fType = ''peaking'', fFrequency = 3000, fQ = 1, fGain = 0,
                    fToDestination = True\<rparr>],
       currentTime = 0, stopLog = [], rafQueue = [(1, demoClosure)], nextFrame = 2\<rparr>)"

definition demoEnded :: "App \<times> Host" where
  "demoEnded = fire (SourceEnded 0) demoPlaying"

text \<open>
  A second playback: the same four words over a buffer of one second, played at rate 1.5.
  \<open>fastClosure\<close> is the closure the karaoke effect creates for it.
\<close>

definition shortBuffer :: AudioBuffer where
  "shortBuffer = \<lparr>sampleRate = 24000, length_buf = 24000, channels = [replicate 24000 0]\<rparr>"

definition fastPlaying :: "App \<times> Host" where
  "fastPlaying =
     ((fst demoPlaying)\<lparr>playbackRate := 3 / 2, audioBuffer := Some shortBuffer\<rparr>,
      snd demoPlaying)"

definition fastClosure :: KaraokeClosure where
  "fastClosure =
     \<lparr>kWords = [str ''A'', str ''B'', str ''C'', str ''D''],
      kDuration = div64 (duration shortBuffer) (Finite (3 / 2))\<rparr>"

text \<open>
  Auxiliary notions for the proofs: two states that differ at most in the cursor, the
  frame handle and the pending callbacks; the two halves of the invariant; the host
  after the \<^verbatim>\<open>stop()\<close> that \<^verbatim>\<open>playAudio\<close> issues; the nodes \<^verbatim>\<open>playAudio\<close> creates.
\<close>

definition sameButCursor :: "App \<times> Host \<Rightarrow> App \<times> Host \<Rightarrow> bool" where
  "sameButCursor x y \<longleftrightarrow>
     text' (fst y) = text' (fst x) \<and> playbackRate (fst y) = playbackRate (fst x)
     \<and> pitchShift (fst y) = pitchShift (fst x) \<and> emphasis (fst y) = emphasis (fst x)
     \<and> audioContext (fst y) = audioContext (fst x) \<and> sourceNode (fst y) = sourceNode (fst x)
     \<and> filterNode (fst y) = filterNode (fst x) \<and> isPlaying (fst y) = isPlaying (fst x)
     \<and> audioBuffer (fst y) = audioBuffer (fst x) \<and> startTimeRef (fst y) = startTimeRef (fst x)
     \<and> sources (snd y) = sources (snd x) \<and> filters (snd y) = filters (snd x)
     \<and> currentTime (snd y) = currentTime (snd x) \<and> stopLog (snd y) = stopLog (snd x)"

definition nodesOk :: "App \<times> Host \<Rightarrow> bool" where
  "nodesOk = (\<lambda>(s, h).
     (\<forall>p < length (sources h). srcState (sources h ! p) = Playing \<longrightarrow> sourceNode s = Some p)
     \<and> (\<forall>p. sourceNode s = Some p \<longrightarrow>
            p < length (sources h) \<and> srcState (sources h ! p) \<noteq> Unstarted
            \<and> srcOnended (sources h ! p))
     \<and> (\<forall>f. filterNode s = Some f \<longrightarrow> f < length (filters h))
     \<and> (isPlaying s \<longrightarrow> active h \<noteq> []))"

definition cursorOk :: "App \<times> Host \<Rightarrow> bool" where
  "cursorOk = (\<lambda>(s, h).
     (\<not> isPlaying s \<longrightarrow> currentWordIndex s = Finite (- 1))
     \<and> (rafQueue h = [] \<or> (isPlaying s \<and> (\<exists>k. rafQueue h = [(animationFrameRef s, k)]))))"

definition stopped :: "App \<Rightarrow> Host \<Rightarrow> Host" where
  "stopped s h = (case sourceNode s of None \<Rightarrow> h | Some p \<Rightarrow> try_catch (stop p h))"

definition peaking :: FilterNode where
  "peaking = \<lparr>fType = ''peaking'', fFrequency = 3000, fQ = 1, fGain = 0, fToDestination = True\<rparr>"

definition newSource :: "AudioBuffer \<Rightarrow> App \<Rightarrow> Host \<Rightarrow> SourceNode" where
  "newSource b s h =
     \<lparr>srcBuffer = Some b, srcRate = playbackRate s, srcDetune = pitchShift s,
      srcDest = Some (case filterNode s of Some f \<Rightarrow> f | None \<Rightarrow> length (filters h)),
      srcOnended = True, srcState = Playing\<rparr>"



section \<open>The asynchronous handlers\<close>

text \<open>
  \<^verbatim>\<open>handleSynthesis\<close> and \<^verbatim>\<open>handleOptimization\<close> are \<^verbatim>\<open>async\<close> functions: each runs up to
  an \<^verbatim>\<open>await\<close>, and the rest runs later, when the awaited promise settles, still with
  the state variables of the render in which the button was clicked. The page is the
  component's state with the part that enables its buttons (\<^verbatim>\<open>processing\<close>, the API key),
  the host, and the functions that are suspended or scheduled. The history, the voice
  and the emotion are not modelled, nor are the handlers of the history and of the
  download; the services \<^verbatim>\<open>synthesizeSpeech\<close>, \<^verbatim>\<open>quickPolishText\<close>,
  \<^verbatim>\<open>optimizeTextWithThinking\<close> and \<^verbatim>\<open>saveHistoryItem\<close> appear through the value they
  resolve with, or their rejection.
\<close>

record ProcessingState =
  isThinking :: bool
  isSynthesizing :: bool
  progress :: nat
  statusMessage :: string

text \<open>
  A suspended \<^verbatim>\<open>handleSynthesis\<close> keeps the state \<open>r\<close> of its render and the context
  \<^verbatim>\<open>ctx\<close>, and after the first \<^verbatim>\<open>await\<close> the buffer; \<open>Timeout\<close> is the callback that
  \<^verbatim>\<open>handleOptimization\<close> passes to \<^verbatim>\<open>setTimeout\<close>.
\<close>

datatype task =
    AwaitSpeech App nat
  | AwaitSave App nat AudioBuffer
  | AwaitText
  | Timeout

record Page =
  app :: App
  processing :: ProcessingState
  tempApiKey :: jsstring
  apiKey :: jsstring
  isApiConnected :: bool
  host :: Host
  pending :: "task list"

definition trim :: "jsstring \<Rightarrow> jsstring" where
  "trim s = rev (dropWhile isWhiteSpace (rev (dropWhile isWhiteSpace s)))"

definition handleConnectApi :: "Page \<Rightarrow> Page" where
  "handleConnectApi pg =
     (if 0 < length (trim (tempApiKey pg))
      then pg\<lparr>apiKey := trim (tempApiKey pg), isApiConnected := True\<rparr>
      else pg)"

definition handleDisconnectApi :: "Page \<Rightarrow> Page" where
  "handleDisconnectApi pg = pg\<lparr>apiKey := [], tempApiKey := [], isApiConnected := False\<rparr>"

text \<open>
  \<^verbatim>\<open>initAudio\<close>, called by a function of render \<open>r\<close>; \<open>ctx\<close> is the context that
  \<^verbatim>\<open>new AudioContext\<close> returns.
\<close>

definition initAudio :: "nat \<Rightarrow> App \<Rightarrow> handler" where
  "initAudio ctx r = (\<lambda>(s, h).
     case audioContext r of
       Some c \<Rightarrow> (s, h)
     | None \<Rightarrow>
         let (f, h1) = createBiquadFilter h;
             h2 = updFilter f (\<lambda>n. n\<lparr>fType := ''peaking'', fFrequency := 3000, fQ := 1,
                                      fGain := 0, fToDestination := True\<rparr>) h1
         in (s\<lparr>audioContext := Some ctx, filterNode := Some f\<rparr>, h2))"

text \<open>
  \<^verbatim>\<open>handleOptimization\<close> up to its \<^verbatim>\<open>await\<close>; its continuation when the service resolves
  with the text \<open>optimized\<close>; its \<^verbatim>\<open>catch\<close> block; and the callback of its timer.
\<close>

definition handleOptimization :: "bool \<Rightarrow> nat \<Rightarrow> Page \<Rightarrow> Page" where
  "handleOptimization deep ctx pg =
     (let r = app pg
      in if \<not> isApiConnected pg then pg
         else if trim (text' r) = [] then pg
         else let (s1, h1) = initAudio ctx r (app pg, host pg)
              in pg\<lparr>app := s1, host := h1,
                    processing :=
                      \<lparr>isThinking = True, isSynthesizing = False, progress = 30,
                       statusMessage =
                         (if deep then ''Thinking Protocol Active...'' else ''Polishing...'')\<rparr>,
                    pending := pending pg @ [AwaitText]\<rparr>)"

definition handleOptimization_resolved :: "jsstring \<Rightarrow> Page \<Rightarrow> Page" where
  "handleOptimization_resolved optimized pg =
     pg\<lparr>app := (app pg)\<lparr>text' := optimized\<rparr>,
        processing := (processing pg)\<lparr>isThinking := False, progress := 100,
                                      statusMessage := ''Optimization Complete''\<rparr>,
        pending := pending pg @ [Timeout]\<rparr>"

definition handleOptimization_catch :: "Page \<Rightarrow> Page" where
  "handleOptimization_catch pg =
     pg\<lparr>processing := \<lparr>isThinking = False, isSynthesizing = False, progress = 0,
                        statusMessage = ''Optimization Failed''\<rparr>\<rparr>"

definition handleOptimization_timeout :: "Page \<Rightarrow> Page" where
  "handleOptimization_timeout pg =
     pg\<lparr>processing := \<lparr>isThinking = False, isSynthesizing = False, progress = 0,
                        statusMessage = []\<rparr>\<rparr>"

text \<open>
  \<^verbatim>\<open>handleSynthesis\<close> up to \<^verbatim>\<open>await synthesizeSpeech\<close> (\<open>ctx1\<close> and \<open>ctx2\<close> are the contexts
  that the two \<^verbatim>\<open>new AudioContext\<close> return); its continuation when the service resolves
  with \<open>buffer\<close>, up to \<^verbatim>\<open>await saveHistoryItem\<close>; its continuation when the item is
  saved, which ends with the call of \<^verbatim>\<open>playAudio\<close>; and its \<^verbatim>\<open>catch\<close> block. An exception
  of the encoder would be caught there.
\<close>

definition handleSynthesis :: "nat \<Rightarrow> nat \<Rightarrow> Page \<Rightarrow> Page" where
  "handleSynthesis ctx1 ctx2 pg =
     (let r = app pg
      in if \<not> isApiConnected pg then pg
         else if trim (text' r) = [] then pg
         else let (s1, h1) = initAudio ctx1 r (app pg, host pg);
                  h2 = (case sourceNode r of None \<Rightarrow> h1 | Some p \<Rightarrow> try_catch (stop p h1));
                  s2 = s1\<lparr>isPlaying := False\<rparr>;
                  ctx = (case audioContext r of Some c \<Rightarrow> c | None \<Rightarrow> ctx2);
                  s3 = (case audioContext r of
                          Some c \<Rightarrow> s2
                        | None \<Rightarrow> s2\<lparr>audioContext := Some ctx\<rparr>)
              in pg\<lparr>app := s3, host := h2,
                    processing :=
                      \<lparr>isThinking = False, isSynthesizing = True, progress = 50,
                       statusMessage = ''Synthesizing Audio...''\<rparr>,
                    pending := pending pg @ [AwaitSpeech r ctx]\<rparr>)"

definition handleSynthesis_catch :: "Page \<Rightarrow> Page" where
  "handleSynthesis_catch pg =
     pg\<lparr>processing := \<lparr>isThinking = False, isSynthesizing = False, progress = 0,
                        statusMessage = ''Synthesis Failed''\<rparr>\<rparr>"

definition handleSynthesis_resolved :: "App \<Rightarrow> nat \<Rightarrow> AudioBuffer \<Rightarrow> Page \<Rightarrow> Page" where
  "handleSynthesis_resolved r ctx buffer pg =
     (let pg1 = pg\<lparr>app := (app pg)\<lparr>audioBuffer := Some buffer\<rparr>\<rparr>
      in case audioBufferToWav buffer of
           None \<Rightarrow> handleSynthesis_catch pg1
         | Some wavBlob \<Rightarrow> pg1\<lparr>pending := pending pg1 @ [AwaitSave r ctx buffer]\<rparr>)"

definition handleSynthesis_saved :: "App \<Rightarrow> nat \<Rightarrow> AudioBuffer \<Rightarrow> Page \<Rightarrow> Page" where
  "handleSynthesis_saved r ctx buffer pg =
     (let pg1 = pg\<lparr>processing := \<lparr>isThinking = False, isSynthesizing = False,
                                     progress = 100, statusMessage = ''Ready''\<rparr>\<rparr>;
          (s, h) = playAudio r (Some buffer) (Some ctx) (app pg1, host pg1)
      in pg1\<lparr>app := s, host := h\<rparr>)"

text \<open>
  After each of these React renders and runs the effects. \<open>onPage\<close> lifts a handler of the
  engine to the page.
\<close>

definition rendered :: "(Page \<Rightarrow> Page) \<Rightarrow> Page \<Rightarrow> Page" where
  "rendered f pg =
     (let pg1 = f pg; (s, h) = commit (app pg) (app pg1, host pg1)
      in pg1\<lparr>app := s, host := h\<rparr>)"

definition onPage :: "handler \<Rightarrow> Page \<Rightarrow> Page" where
  "onPage f pg = (let (s, h) = f (app pg, host pg) in pg\<lparr>app := s, host := h\<rparr>)"

text \<open>
  What can happen to the page: the user acts on a control that is shown and enabled, a
  pending promise settles or the timer fires, or the host delivers an event. \<open>perform\<close>
  is \<open>None\<close> when the action is not possible in the state: the control is hidden or
  disabled, or there is no such task. The Synthesize button is shown while nothing
  plays and is enabled when the text is not blank and \<^verbatim>\<open>processing.isSynthesizing\<close> is
  false; the two optimization buttons are enabled when nothing plays, thinks or
  synthesizes; the stop button is shown while \<open>isPlaying\<close> holds, the text area while it
  does not; the key field and the Connect button are shown while no key is connected.
\<close>

datatype outcome = Speech AudioBuffer | Text jsstring | Fulfilled | Rejected

datatype action =
    TypeApiKey jsstring
  | ClickConnect
  | ClickDisconnect
  | TypeText jsstring
  | Slide event
  | ClickOptimize bool nat
  | ClickSynthesize nat nat
  | ClickStop
  | Settle nat outcome
  | Deliver event

fun settle :: "task \<Rightarrow> outcome \<Rightarrow> (Page \<Rightarrow> Page) option" where
  "settle (AwaitSpeech r ctx) (Speech buffer) = Some (handleSynthesis_resolved r ctx buffer)"
| "settle (AwaitSpeech r ctx) Rejected = Some handleSynthesis_catch"
| "settle (AwaitSave r ctx buffer) Fulfilled = Some (handleSynthesis_saved r ctx buffer)"
| "settle (AwaitSave r ctx buffer) Rejected = Some handleSynthesis_catch"
| "settle AwaitText (Text optimized) = Some (handleOptimization_resolved optimized)"
| "settle AwaitText Rejected = Some handleOptimization_catch"
| "settle Timeout Fulfilled = Some handleOptimization_timeout"
| "settle _ _ = None"

definition isSlider :: "event \<Rightarrow> bool" where
  "isSlider e = (case e of SetPlaybackRate v \<Rightarrow> True | SetPitchShift v \<Rightarrow> True
                 | SetEmphasis v \<Rightarrow> True | _ \<Rightarrow> False)"

definition isHostEvent :: "event \<Rightarrow> bool" where
  "isHostEvent e = (case e of SourceEnded p \<Rightarrow> True | Advance dt \<Rightarrow> 0 \<le> dt
                    | AnimationFrame \<Rightarrow> True | _ \<Rightarrow> False)"

fun perform :: "action \<Rightarrow> Page \<Rightarrow> Page option" where
  "perform (TypeApiKey v) pg =
     (if isApiConnected pg then None else Some (rendered (\<lambda>pg. pg\<lparr>tempApiKey := v\<rparr>) pg))"
| "perform ClickConnect pg =
     (if isApiConnected pg \<or> trim (tempApiKey pg) = [] then None
      else Some (rendered handleConnectApi pg))"
| "perform ClickDisconnect pg =
     (if isApiConnected pg then Some (rendered handleDisconnectApi pg) else None)"
| "perform (TypeText v) pg =
     (if isPlaying (app pg) then None else Some (onPage (fire (SetText v)) pg))"
| "perform (Slide e) pg = (if isSlider e then Some (onPage (fire e) pg) else None)"
| "perform (ClickOptimize deep ctx) pg =
     (if isThinking (processing pg) \<or> isSynthesizing (processing pg) \<or> isPlaying (app pg)
      then None else Some (rendered (handleOptimization deep ctx) pg))"
| "perform (ClickSynthesize ctx1 ctx2) pg =
     (if isPlaying (app pg) \<or> trim (text' (app pg)) = [] \<or> isSynthesizing (processing pg)
      then None else Some (rendered (handleSynthesis ctx1 ctx2) pg))"
| "perform ClickStop pg =
     (if isPlaying (app pg) then Some (onPage (fire HandleStop) pg) else None)"
| "perform (Settle i out) pg =
     (if i < length (pending pg)
      then (case settle (pending pg ! i) out of
              None \<Rightarrow> None
            | Some f \<Rightarrow>
                Some (rendered f (pg\<lparr>pending := take i (pending pg) @ drop (Suc i) (pending pg)\<rparr>)))
      else None)"
| "perform (Deliver e) pg = (if isHostEvent e then Some (onPage (fire e) pg) else None)"

fun run :: "action list \<Rightarrow> Page \<Rightarrow> Page option" where
  "run [] pg = Some pg"
| "run (a # as) pg = (case perform a pg of None \<Rightarrow> None | Some pg1 \<Rightarrow> run as pg1)"

definition initialPage :: Page where
  "initialPage =
     \<lparr>app = initialApp,
      processing = \<lparr>isThinking = False, isSynthesizing = False, progress = 0,
                    statusMessage = []\<rparr>,
      tempApiKey = [], apiKey = [], isApiConnected = False, host = initialHost, pending = []\<rparr>"

text \<open>
  A run of the page in which two syntheses overlap. The user connects a key, types four
  words and asks for a polish, which resolves; the first click on Synthesize follows
  while the timer of the polish is pending; the timer fires and resets \<^verbatim>\<open>processing\<close>,
  which enables the button again although the synthesis is still pending; the second
  click follows; then both syntheses resolve and are saved, one after the other.
\<close>

definition overlap :: "action list" where
  "overlap =
     [TypeApiKey (str ''key''), ClickConnect, TypeText (str ''A B C D''),
      ClickOptimize False 0, Settle 0 (Text (str ''A B C D'')),
      ClickSynthesize 1 2, Settle 0 Fulfilled, ClickSynthesize 3 4,
      Settle 0 (Speech shortBuffer), Settle 1 Fulfilled,
      Settle 0 (Speech shortBuffer), Settle 0 Fulfilled]"


section \<open>The encoder writes the reference layout\<close>

lemma store_append:
  "length pre = off \<Longrightarrow> length bs \<le> length rest \<Longrightarrow>
   store (pre @ rest) off bs = pre @ bs @ drop (length bs) rest"
proof (induction bs arbitrary: pre rest off)
  case Nil
  then show ?case by simp
next
  case (Cons b bs)
  then obtain r rs where rest: "rest = r # rs" by (cases rest) auto
  have "store ((pre @ rest)[off := b]) (Suc off) bs = store ((pre @ [b]) @ rs) (Suc off) bs"
    using Cons.prems(1)[symmetric] rest by simp
  also have "\<dots> = (pre @ [b]) @ bs @ drop (length bs) rs"
    using Cons.prems rest by (intro Cons.IH) auto
  finally show ?case using rest by simp
qed

lemma setBytes_append:
  "length pre = off \<Longrightarrow> length bs \<le> length rest \<Longrightarrow>
   setBytes (pre @ rest) off bs = Some (pre @ bs @ drop (length bs) rest)"
  by (simp add: setBytes_def store_append)

lemma length_bytes16 [simp]: "length (bytes16 w e) = 2"
  by (simp add: bytes16_def Let_def)

lemma length_bytes32 [simp]: "length (bytes32 w e) = 4"
  by (simp add: bytes32_def Let_def)

lemma writeString_loop_append:
  "length pre = offset + i \<Longrightarrow> length string - i \<le> length rest \<Longrightarrow>
   writeString_loop (pre @ rest) offset string i =
     Some (pre @ stringBytes (drop i string) @ drop (length string - i) rest)"
proof (induction "pre @ rest" offset string i arbitrary: pre rest rule: writeString_loop.induct)
  case (1 offset string i)
  show ?case
  proof (cases "i < length string")
    case False
    then show ?thesis by (simp add: stringBytes_def)
  next
    case True
    then obtain r rs where rest: "rest = r # rs" using "1.prems" by (cases rest) auto
    let ?b = "word_of_nat (charCodeAt string i) :: byte"
    have w: "setUint8 (pre @ rest) (offset + i) (charCodeAt string i) = Some ((pre @ [?b]) @ rs)"
      using "1.prems" rest by (simp add: setUint8_def setBytes_append)
    have "writeString_loop ((pre @ [?b]) @ rs) offset string (Suc i) =
          Some ((pre @ [?b]) @ stringBytes (drop (Suc i) string) @ drop (length string - Suc i) rs)"
      using "1.prems" rest True by (intro "1.hyps"[OF True w]) auto
    moreover have "drop i string = string ! i # drop (Suc i) string"
      using True by (simp add: Cons_nth_drop_Suc)
    moreover have "drop (length string - i) rest = drop (length string - Suc i) rs"
    proof -
      have "length string - i = Suc (length string - Suc i)" using True by simp
      then show ?thesis using rest by simp
    qed
    ultimately show ?thesis
      using True w by (subst writeString_loop.simps) (simp add: stringBytes_def charCodeAt_def)
  qed
qed

declare writeString_loop.simps [simp del] channelLoop.simps [simp del] frameLoop.simps [simp del]

lemma length_sampleBytes [simp]: "length (sampleBytes x) = 2"
  by (simp add: sampleBytes_def)

lemma frameBytes_step: "ch < n \<Longrightarrow>
  frameBytes cd i ch n = sampleBytes (typedArrayGet (cd ! ch) i) @ frameBytes cd i (Suc ch) n"
  by (simp add: frameBytes_def upt_conv_Cons)

lemma frameBytes_done: "\<not> ch < n \<Longrightarrow> frameBytes cd i ch n = []"
  by (simp add: frameBytes_def)

lemma length_frameBytes [simp]: "length (frameBytes cd i ch n) = 2 * (n - ch)"
  by (simp add: frameBytes_def length_concat comp_def sum_list_triv)

lemma pcmBytes_step: "i < frames \<Longrightarrow>
  pcmBytes cd n frames i = frameBytes cd i 0 n @ pcmBytes cd n frames (Suc i)"
  by (simp add: pcmBytes_def upt_conv_Cons)

lemma pcmBytes_done: "\<not> i < frames \<Longrightarrow> pcmBytes cd n frames i = []"
  by (simp add: pcmBytes_def)

lemma length_pcmBytes [simp]: "length (pcmBytes cd n frames i) = 2 * n * (frames - i)"
  by (simp add: pcmBytes_def length_concat comp_def sum_list_triv)

lemma channelLoop_append:
  "length pre = offset \<Longrightarrow> 2 * (n - ch) \<le> length rest \<Longrightarrow>
   channelLoop cd n i (pre @ rest) offset ch =
     Some (pre @ frameBytes cd i ch n @ drop (2 * (n - ch)) rest, offset + 2 * (n - ch))"
proof (induction cd n i "pre @ rest" offset ch arbitrary: pre rest rule: channelLoop.induct)
  case (1 cd n i offset ch)
  show ?case
  proof (cases "ch < n")
    case False
    then show ?thesis
      using "1.prems" by (subst channelLoop.simps) (simp add: frameBytes_done)
  next
    case True
    let ?bs = "sampleBytes (typedArrayGet (cd ! ch) i)"
    have len: "2 * (n - ch) = 2 + 2 * (n - Suc ch)" using True by simp
    have w: "setInt16 (pre @ rest) offset (quantize (typedArrayGet (cd ! ch) i)) True =
             Some ((pre @ ?bs) @ drop 2 rest)"
      using "1.prems" len by (simp add: setInt16_def setBytes_append sampleBytes_def)
    have "channelLoop cd n i ((pre @ ?bs) @ drop 2 rest) (offset + 2) (Suc ch) =
          Some ((pre @ ?bs) @ frameBytes cd i (Suc ch) n @ drop (2 * (n - Suc ch)) (drop 2 rest),
                offset + 2 + 2 * (n - Suc ch))"
      using "1.prems" len by (intro "1.hyps"[OF True w]) auto
    then show ?thesis
      using True w len by (subst channelLoop.simps) (simp add: frameBytes_step add.commute)
  qed
qed

lemma frameLoop_append:
  "length pre = offset \<Longrightarrow> 2 * n * (frames - i) \<le> length rest \<Longrightarrow>
   frameLoop cd n frames (pre @ rest) offset i =
     Some (pre @ pcmBytes cd n frames i @ drop (2 * n * (frames - i)) rest,
           offset + 2 * n * (frames - i))"
proof (induction cd n frames "pre @ rest" offset i arbitrary: pre rest rule: frameLoop.induct)
  case (1 cd n frames offset i)
  show ?case
  proof (cases "i < frames")
    case False
    then show ?thesis
      using "1.prems" by (subst frameLoop.simps) (simp add: pcmBytes_done)
  next
    case True
    let ?bs = "frameBytes cd i 0 n"
    have len: "2 * n * (frames - i) = 2 * n + 2 * n * (frames - Suc i)"
      using True by (simp add: Suc_diff_Suc[symmetric] del: Suc_diff_Suc)
    have w: "channelLoop cd n i (pre @ rest) offset 0 =
             Some ((pre @ ?bs) @ drop (2 * n) rest, offset + 2 * n)"
      using "1.prems" len by (simp add: channelLoop_append)
    have "frameLoop cd n frames ((pre @ ?bs) @ drop (2 * n) rest) (offset + 2 * n) (Suc i) =
          Some ((pre @ ?bs) @ pcmBytes cd n frames (Suc i)
                  @ drop (2 * n * (frames - Suc i)) (drop (2 * n) rest),
                offset + 2 * n + 2 * n * (frames - Suc i))"
      using "1.prems" len by (intro "1.hyps"[OF True w refl]) auto
    then show ?thesis
      using True w len by (subst frameLoop.simps) (simp add: pcmBytes_step add.commute)
  qed
qed

lemma length_stringBytes [simp]: "length (stringBytes s) = length s"
  by (simp add: stringBytes_def)

lemma length_str [simp]: "length (str s) = length s"
  by (simp add: str_def)

lemma length_wavHeader [simp]: "length (wavHeader buffer) = 44"
  by (simp add: wavHeader_def Let_def)

lemma writeString_zeros:
  "length pre = off \<Longrightarrow> length s \<le> m \<Longrightarrow>
   writeString (pre @ replicate m 0) off s = Some ((pre @ stringBytes s) @ replicate (m - length s) 0)"
  using writeString_loop_append[of pre off 0 s "replicate m 0"]
  by (simp add: writeString_def)

lemma setUint32_zeros:
  "length pre = off \<Longrightarrow> 4 \<le> m \<Longrightarrow>
   setUint32 (pre @ replicate m 0) off x e =
     Some ((pre @ bytes32 (word_of_nat x) e) @ replicate (m - 4) 0)"
  by (simp add: setUint32_def setBytes_append)

lemma setUint16_zeros:
  "length pre = off \<Longrightarrow> 2 \<le> m \<Longrightarrow>
   setUint16 (pre @ replicate m 0) off x e =
     Some ((pre @ bytes16 (word_of_nat x) e) @ replicate (m - 2) 0)"
  by (simp add: setUint16_def setBytes_append)

lemma frameLoop_zeros:
  "length pre = off \<Longrightarrow> m = 2 * n * frames \<Longrightarrow>
   frameLoop cd n frames (pre @ replicate m 0) off 0 =
     Some (pre @ pcmBytes cd n frames 0, off + m)"
  by (simp add: frameLoop_append)

lemma channelData_eq:
  "map (getChannelData buffer) [0 ..< numberOfChannels buffer] = channels buffer"
  by (simp add: getChannelData_def[abs_def] numberOfChannels_def map_nth)

lemma audioBufferToWav_bytes:
  "audioBufferToWav buffer =
     Some (wavHeader buffer
           @ pcmBytes (channels buffer) (numberOfChannels buffer) (length_buf buffer) 0)"
proof -
  define n where "n = numberOfChannels buffer"
  define len where "len = length_buf buffer * n * 2"
  have z: "replicate (44 + len) (0::byte) = [] @ replicate (44 + len) 0" by simp
  show ?thesis
    unfolding audioBufferToWav_def Let_def channelData_eq
    unfolding n_def[symmetric] len_def[symmetric]
    apply (subst z)
    apply (simp add: writeString_zeros setUint32_zeros setUint16_zeros
                del: append_assoc append_Nil replicate_0)
    apply (subst frameLoop_zeros)
      apply simp
     apply (simp add: len_def)
    apply (simp add: wavHeader_def Let_def n_def[symmetric] len_def)
    done
qed

lemma le_split4:
  fixes x :: nat
  assumes "x < 2 ^ 32"
  shows "x mod 256 + 256 * (x div 256 mod 256 + 256 * (x div 65536 mod 256
           + 256 * (x div 16777216 mod 256))) = x"
proof -
  have a: "x div 65536 = x div 256 div 256" by (simp add: div_mult2_eq[symmetric])
  have b: "x div 16777216 = x div 256 div 256 div 256" by (simp add: div_mult2_eq[symmetric])
  have "x div 16777216 < 256" using assms by (simp add: less_mult_imp_div_less)
  then have c: "x div 256 div 256 div 256 mod 256 = x div 256 div 256 div 256"
    by (simp add: b)
  show ?thesis unfolding a b c by simp
qed

lemma le_split2:
  fixes x :: nat
  assumes "x < 2 ^ 16"
  shows "x mod 256 + 256 * (x div 256 mod 256) = x"
proof -
  have "x div 256 < 256" using assms by (simp add: less_mult_imp_div_less)
  then show ?thesis by simp
qed

lemma le_nat_bytes32: "le_nat (bytes32 w True) = unat w"
proof -
  have "unat w < 2 ^ 32" using unsigned_less[of w] by simp
  then show ?thesis
    using le_split4[of "unat w"]
    by (simp add: bytes32_def unsigned_ucast_eq take_bit_eq_mod unat_drop_bit_eq drop_bit_eq_div unat_div_distrib)
qed

lemma le_nat_bytes16: "le_nat (bytes16 w True) = unat w"
proof -
  have "unat w < 2 ^ 16" using unsigned_less[of w] by simp
  then show ?thesis
    using le_split2[of "unat w"]
    by (simp add: bytes16_def unsigned_ucast_eq take_bit_eq_mod unat_drop_bit_eq drop_bit_eq_div unat_div_distrib)
qed

lemma sint_toInt16:
  "- 32768 \<le> jsTruncate v \<Longrightarrow> jsTruncate v \<le> 32767 \<Longrightarrow> sint (toInt16 (Num v)) = jsTruncate v"
  by (simp add: sint_sbintrunc' signed_take_bit_int_eq_self)

lemma unat_u32: "x < 2 ^ 32 \<Longrightarrow> unat (word_of_nat x :: 32 word) = x"
  by (simp add: unat_of_nat)

lemma unat_u16: "x < 2 ^ 16 \<Longrightarrow> unat (word_of_nat x :: 16 word) = x"
  by (simp add: unat_of_nat)

lemma bytesAt_append:
  "length pre = off \<Longrightarrow> length bs = n \<Longrightarrow> bytesAt (pre @ bs @ rest) off n = bs"
  by (simp add: bytesAt_def)

lemma concat_map_upt_split:
  assumes "k < m"
  shows "concat (map f [0 ..< m]) = concat (map f [0 ..< k]) @ f k @ concat (map f [Suc k ..< m])"
proof -
  have "[0 ..< m] = [0 ..< k] @ [k ..< m]"
    using assms upt_add_eq_append[of 0 k "m - k"] by simp
  also have "[k ..< m] = k # [Suc k ..< m]"
    using assms by (simp add: upt_conv_Cons)
  finally show ?thesis by simp
qed

lemma pcmBytes_at:
  assumes "i < frames" "c < n"
  shows "\<exists>pre rest. pcmBytes cd n frames 0 = pre @ sampleBytes (typedArrayGet (cd ! c) i) @ rest
           \<and> length pre = 2 * (i * n + c)"
proof -
  let ?F = "\<lambda>j. frameBytes cd j 0 n"
  let ?G = "\<lambda>c. sampleBytes (typedArrayGet (cd ! c) i)"
  have p: "pcmBytes cd n frames 0 = pcmBytes cd n i 0 @ ?F i @ concat (map ?F [Suc i ..< frames])"
    unfolding pcmBytes_def using concat_map_upt_split[OF assms(1), of ?F] .
  have f: "?F i = frameBytes cd i 0 c @ ?G c @ concat (map ?G [Suc c ..< n])"
    unfolding frameBytes_def using concat_map_upt_split[OF assms(2), of ?G] .
  have "pcmBytes cd n frames 0 =
        (pcmBytes cd n i 0 @ frameBytes cd i 0 c) @ ?G c
          @ (concat (map ?G [Suc c ..< n]) @ concat (map ?F [Suc i ..< frames]))"
    by (subst p, subst f) simp
  moreover have "length (pcmBytes cd n i 0 @ frameBytes cd i 0 c) = 2 * (i * n + c)"
    by (simp add: algebra_simps)
  ultimately show ?thesis by blast
qed

lemma le_int16_bytes16: "le_int16 (bytes16 w True) = sint w"
  by (simp add: le_int16_def le_nat_bytes16)

lemma quantize_Num:
  "quantize (Num x) =
     Num (let s = max (- 1) (min 1 x) in if s < 0 then s * 32768 else s * 32767)"
  by (auto simp add: quantize_def Let_def min_def max_def)

lemma jsTruncate_neg: "r < 0 \<Longrightarrow> jsTruncate r = \<lceil>r\<rceil>"
  by (simp add: jsTruncate_def ceiling_def)

lemma jsTruncate_nonneg: "\<not> r < 0 \<Longrightarrow> jsTruncate r = \<lfloor>r\<rfloor>"
  by (simp add: jsTruncate_def)

lemma sint_quantize:
  fixes x :: rat
  defines "s \<equiv> max (- 1) (min 1 x)"
  shows "sint (toInt16 (quantize (Num x))) = (if s < 0 then \<lceil>s * 32768\<rceil> else \<lfloor>s * 32767\<rfloor>)"
proof (cases "s < 0")
  case True
  have q: "quantize (Num x) = Num (s * 32768)"
    using True unfolding quantize_Num s_def Let_def by simp
  have "- 1 \<le> s" by (simp add: s_def)
  then have "- 32768 \<le> s * 32768" by simp
  then have lo: "- 32768 \<le> \<lceil>s * 32768\<rceil>" by (simp add: le_ceiling_iff)
  have neg: "s * 32768 < 0" using True by (simp add: mult_less_0_iff)
  then have hi: "\<lceil>s * 32768\<rceil> \<le> 32767" by (simp add: ceiling_le_iff)
  have t: "jsTruncate (s * 32768) = \<lceil>s * 32768\<rceil>"
    using neg by (rule jsTruncate_neg)
  have "sint (toInt16 (Num (s * 32768))) = jsTruncate (s * 32768)"
    by (rule sint_toInt16) (use lo hi t in simp_all)
  then show ?thesis using True q t by simp
next
  case False
  have q: "quantize (Num x) = Num (s * 32767)"
    using False unfolding quantize_Num s_def Let_def by simp
  have "s \<le> 1" by (simp add: s_def)
  then have "s * 32767 \<le> 32767" by simp
  then have hi: "\<lfloor>s * 32767\<rfloor> \<le> 32767" by (simp add: floor_le_iff)
  have nn: "\<not> s * 32767 < 0" using False by simp
  then have lo: "- 32768 \<le> \<lfloor>s * 32767\<rfloor>" by (simp add: le_floor_iff)
  have t: "jsTruncate (s * 32767) = \<lfloor>s * 32767\<rfloor>"
    using nn by (rule jsTruncate_nonneg)
  have "sint (toInt16 (Num (s * 32767))) = jsTruncate (s * 32767)"
    by (rule sint_toInt16) (use lo hi t in simp_all)
  then show ?thesis using False q t by simp
qed

lemma unat_stringBytes: "\<forall>c \<in> set s. c < 256 \<Longrightarrow> map unat (stringBytes s) = s"
  by (induction s) (simp_all add: stringBytes_def unat_of_nat)

lemma sampleBytes_clamp: "sampleBytes (Num x) = sampleBytes (Num (max (- 1) (min 1 x)))"
proof -
  have "max (- 1) (min 1 (max (- 1) (min 1 x))) = max (- 1) (min 1 x)"
    by (simp add: min_def max_def)
  then have "quantize (Num x) = quantize (Num (max (- 1) (min 1 x)))"
    by (simp only: quantize_Num)
  then show ?thesis by (simp only: sampleBytes_def)
qed

lemma pcmBytes_cong:
  assumes "\<And>ch j. ch < n \<Longrightarrow>
             sampleBytes (typedArrayGet (cd1 ! ch) j) = sampleBytes (typedArrayGet (cd2 ! ch) j)"
  shows "pcmBytes cd1 n frames 0 = pcmBytes cd2 n frames 0"
proof -
  have "frameBytes cd1 j 0 n = frameBytes cd2 j 0 n" for j
    unfolding frameBytes_def by (rule arg_cong[where f = concat], rule map_cong) (simp_all add: assms)
  then show ?thesis by (simp add: pcmBytes_def)
qed

lemma setSample_cong:
  assumes "sampleBytes (Num x) = sampleBytes (Num y)"
  shows "audioBufferToWav (setSample buffer c i x) = audioBufferToWav (setSample buffer c i y)"
proof -
  let ?cs = "channels buffer"
  let ?cx = "?cs[c := (?cs ! c)[i := x]]" and ?cy = "?cs[c := (?cs ! c)[i := y]]"
  have hdr: "wavHeader (setSample buffer c i x) = wavHeader (setSample buffer c i y)"
    by (simp add: wavHeader_def setSample_def numberOfChannels_def)
  have "sampleBytes (typedArrayGet (?cx ! ch) j) = sampleBytes (typedArrayGet (?cy ! ch) j)"
    if "ch < length ?cs" for ch j
    using that assms by (cases "ch = c"; cases "j = i") (simp_all add: typedArrayGet_def)
  then have "pcmBytes ?cx (length ?cs) (length_buf buffer) 0 = pcmBytes ?cy (length ?cs) (length_buf buffer) 0"
    by (rule pcmBytes_cong)
  then show ?thesis
    unfolding audioBufferToWav_bytes hdr by (simp add: setSample_def numberOfChannels_def)
qed

lemma floor_rat_numeral_div:
  "\<lfloor>(numeral a :: rat) / numeral b\<rfloor> = numeral a div numeral b"
  using floor_divide_of_int_eq[of "numeral a" "numeral b", where ?'a = rat] by simp

subsection \<open>Claims about the encoder\<close>

text \<open>
  C1. For every buffer the encoder returns (no write is out of range), and its output has
  \<open>44 + frameCount * channelCount * 2\<close> bytes; a mono buffer of 12000 frames gives
  24044 bytes.
\<close>

theorem audioBufferToWav_length:
  "\<exists>out. audioBufferToWav buffer = Some out
      \<and> length out = 44 + length_buf buffer * numberOfChannels buffer * 2
      \<and> (numberOfChannels buffer = 1 \<and> length_buf buffer = 12000 \<longrightarrow> length out = 24044)"
  by (simp add: audioBufferToWav_bytes)

theorem audioBufferToWav_length_witness:
  "\<exists>out. audioBufferToWav \<lparr>sampleRate = 24000, length_buf = 12000,
                              channels = [replicate 12000 0]\<rparr> = Some out
      \<and> length out = 24044"
  using audioBufferToWav_length
          [of "\<lparr>sampleRate = 24000, length_buf = 12000, channels = [replicate 12000 0]\<rparr>"]
  by (simp add: numberOfChannels_def)

text \<open>
  C4. The 16-bit little-endian signed value stored for the sample of channel \<open>c\<close> at frame
  \<open>i\<close>, at byte offset \<open>44 + 2 * (i * channelCount + c)\<close>, is obtained by clamping the
  sample to \<open>[-1, 1]\<close>, scaling a negative clamped value by 32768 and a non-negative one
  by 32767, and truncating towards zero (ceiling below zero, floor otherwise). No
  wrap-around occurs.
\<close>

theorem audioBufferToWav_sample:
  assumes "c < numberOfChannels buffer" and "i < length_buf buffer"
    and "i < length (channels buffer ! c)"
  shows "\<exists>out. audioBufferToWav buffer = Some out
      \<and> le_int16 (bytesAt out (44 + 2 * (i * numberOfChannels buffer + c)) 2) =
          (let s = max (- 1) (min 1 (channels buffer ! c ! i))
           in if s < 0 then \<lceil>s * 32768\<rceil> else \<lfloor>s * 32767\<rfloor>)"
proof -
  let ?n = "numberOfChannels buffer"
  let ?x = "channels buffer ! c ! i"
  obtain pre rest where
    p: "pcmBytes (channels buffer) ?n (length_buf buffer) 0 =
          pre @ sampleBytes (typedArrayGet (channels buffer ! c) i) @ rest"
    and l: "length pre = 2 * (i * ?n + c)"
    using pcmBytes_at[OF assms(2) assms(1)] by blast
  have g: "typedArrayGet (channels buffer ! c) i = Num ?x"
    using assms(3) by (simp add: typedArrayGet_def)
  have "audioBufferToWav buffer = Some ((wavHeader buffer @ pre) @ sampleBytes (Num ?x) @ rest)"
    by (simp add: audioBufferToWav_bytes p g)
  moreover have "bytesAt ((wavHeader buffer @ pre) @ sampleBytes (Num ?x) @ rest)
                   (44 + 2 * (i * ?n + c)) 2 = sampleBytes (Num ?x)"
    by (rule bytesAt_append) (simp_all add: l)
  moreover have "le_int16 (sampleBytes (Num ?x)) =
          (let s = max (- 1) (min 1 ?x) in if s < 0 then \<lceil>s * 32768\<rceil> else \<lfloor>s * 32767\<rfloor>)"
    by (simp add: sampleBytes_def le_int16_bytes16 sint_quantize Let_def)
  ultimately show ?thesis by simp
qed

theorem audioBufferToWav_sample_witness:
  "(\<exists>out. audioBufferToWav \<lparr>sampleRate = 24000, length_buf = 2, channels = [[- 2, 1 / 2]]\<rparr>
            = Some out \<and> le_int16 (bytesAt out 44 2) = - 32768)
   \<and> (\<exists>out. audioBufferToWav \<lparr>sampleRate = 24000, length_buf = 2, channels = [[- 2, 1 / 2]]\<rparr>
            = Some out \<and> le_int16 (bytesAt out 46 2) = 16383)"
  using audioBufferToWav_sample
          [of 0 "\<lparr>sampleRate = 24000, length_buf = 2, channels = [[- 2, 1 / 2]]\<rparr>" 0]
        audioBufferToWav_sample
          [of 0 "\<lparr>sampleRate = 24000, length_buf = 2, channels = [[- 2, 1 / 2]]\<rparr>" 1]
  by (simp add: numberOfChannels_def floor_rat_numeral_div)

text \<open>
  C5. The first 44 bytes are the RIFF/WAVE header: the four tags, RIFF size
  \<open>36 + dataLength\<close>, fmt chunk size 16, format code 1, the channel count, the sample
  rate, byte rate \<open>sampleRate * channelCount * 2\<close>, block align \<open>channelCount * 2\<close>, bit
  depth 16, and data length \<open>frameCount * channelCount * 2\<close>, which is also the number of
  bytes that follow. The hypotheses say that each value fits the width of its field; a
  setter stores its argument modulo that width.
\<close>

theorem audioBufferToWav_header:
  assumes "numberOfChannels buffer * 2 < 2 ^ 16"
    and "sampleRate buffer < 2 ^ 32"
    and "sampleRate buffer * numberOfChannels buffer * 2 < 2 ^ 32"
    and "36 + length_buf buffer * numberOfChannels buffer * 2 < 2 ^ 32"
  shows "\<exists>out. audioBufferToWav buffer = Some out
      \<and> map unat (bytesAt out 0 4) = str ''RIFF''
      \<and> le_nat (bytesAt out 4 4) = 36 + length_buf buffer * numberOfChannels buffer * 2
      \<and> map unat (bytesAt out 8 4) = str ''WAVE''
      \<and> map unat (bytesAt out 12 4) = str ''fmt ''
      \<and> le_nat (bytesAt out 16 4) = 16
      \<and> le_nat (bytesAt out 20 2) = 1
      \<and> le_nat (bytesAt out 22 2) = numberOfChannels buffer
      \<and> le_nat (bytesAt out 24 4) = sampleRate buffer
      \<and> le_nat (bytesAt out 28 4) = sampleRate buffer * numberOfChannels buffer * 2
      \<and> le_nat (bytesAt out 32 2) = numberOfChannels buffer * 2
      \<and> le_nat (bytesAt out 34 2) = 16
      \<and> map unat (bytesAt out 36 4) = str ''data''
      \<and> le_nat (bytesAt out 40 4) = length_buf buffer * numberOfChannels buffer * 2
      \<and> length out = 44 + length_buf buffer * numberOfChannels buffer * 2"
proof -
  let ?n = "numberOfChannels buffer"
  let ?len = "length_buf buffer * ?n * 2"
  let ?out = "wavHeader buffer @ pcmBytes (channels buffer) ?n (length_buf buffer) 0"
  have n16: "?n < 2 ^ 16" and len32: "?len < 2 ^ 32" using assms by simp_all
  have f0: "bytesAt ?out 0 4 = stringBytes (str ''RIFF'')"
    and f4: "bytesAt ?out 4 4 = bytes32 (word_of_nat (36 + ?len)) True"
    and f8: "bytesAt ?out 8 4 = stringBytes (str ''WAVE'')"
    and f12: "bytesAt ?out 12 4 = stringBytes (str ''fmt '')"
    and f16: "bytesAt ?out 16 4 = bytes32 (word_of_nat 16) True"
    and f20: "bytesAt ?out 20 2 = bytes16 (word_of_nat 1) True"
    and f22: "bytesAt ?out 22 2 = bytes16 (word_of_nat ?n) True"
    and f24: "bytesAt ?out 24 4 = bytes32 (word_of_nat (sampleRate buffer)) True"
    and f28: "bytesAt ?out 28 4 = bytes32 (word_of_nat (sampleRate buffer * ?n * 2)) True"
    and f32: "bytesAt ?out 32 2 = bytes16 (word_of_nat (?n * 2)) True"
    and f34: "bytesAt ?out 34 2 = bytes16 (word_of_nat 16) True"
    and f36: "bytesAt ?out 36 4 = stringBytes (str ''data'')"
    and f40: "bytesAt ?out 40 4 = bytes32 (word_of_nat ?len) True"
    by (simp_all add: bytesAt_def wavHeader_def Let_def)
  have "map unat (bytesAt ?out 0 4) = str ''RIFF''"
    unfolding f0 by (rule unat_stringBytes) (simp add: str_def)
  moreover have "map unat (bytesAt ?out 8 4) = str ''WAVE''"
    unfolding f8 by (rule unat_stringBytes) (simp add: str_def)
  moreover have "map unat (bytesAt ?out 12 4) = str ''fmt ''"
    unfolding f12 by (rule unat_stringBytes) (simp add: str_def)
  moreover have "map unat (bytesAt ?out 36 4) = str ''data''"
    unfolding f36 by (rule unat_stringBytes) (simp add: str_def)
  moreover have "le_nat (bytesAt ?out 4 4) = 36 + ?len"
    unfolding f4 le_nat_bytes32 using assms(4) by (rule unat_u32)
  moreover have "le_nat (bytesAt ?out 16 4) = 16"
    unfolding f16 le_nat_bytes32 by (rule unat_u32) simp
  moreover have "le_nat (bytesAt ?out 20 2) = 1"
    unfolding f20 le_nat_bytes16 by (rule unat_u16) simp
  moreover have "le_nat (bytesAt ?out 22 2) = ?n"
    unfolding f22 le_nat_bytes16 using n16 by (rule unat_u16)
  moreover have "le_nat (bytesAt ?out 24 4) = sampleRate buffer"
    unfolding f24 le_nat_bytes32 using assms(2) by (rule unat_u32)
  moreover have "le_nat (bytesAt ?out 28 4) = sampleRate buffer * ?n * 2"
    unfolding f28 le_nat_bytes32 using assms(3) by (rule unat_u32)
  moreover have "le_nat (bytesAt ?out 32 2) = ?n * 2"
    unfolding f32 le_nat_bytes16 using assms(1) by (rule unat_u16)
  moreover have "le_nat (bytesAt ?out 34 2) = 16"
    unfolding f34 le_nat_bytes16 by (rule unat_u16) simp
  moreover have "le_nat (bytesAt ?out 40 4) = ?len"
    unfolding f40 le_nat_bytes32 using len32 by (rule unat_u32)
  moreover have "length ?out = 44 + ?len" by simp
  ultimately show ?thesis
    unfolding audioBufferToWav_bytes by blast
qed

theorem audioBufferToWav_header_witness:
  "\<exists>out. audioBufferToWav \<lparr>sampleRate = 24000, length_buf = 2, channels = [[- 2, 1 / 2]]\<rparr>
           = Some out
      \<and> map unat (bytesAt out 0 4) = [82, 73, 70, 70]
      \<and> le_nat (bytesAt out 4 4) = 40
      \<and> map unat (bytesAt out 8 4) = [87, 65, 86, 69]
      \<and> map unat (bytesAt out 12 4) = [102, 109, 116, 32]
      \<and> le_nat (bytesAt out 16 4) = 16
      \<and> le_nat (bytesAt out 20 2) = 1
      \<and> le_nat (bytesAt out 22 2) = 1
      \<and> le_nat (bytesAt out 24 4) = 24000
      \<and> le_nat (bytesAt out 28 4) = 48000
      \<and> le_nat (bytesAt out 32 2) = 2
      \<and> le_nat (bytesAt out 34 2) = 16
      \<and> map unat (bytesAt out 36 4) = [100, 97, 116, 97]
      \<and> le_nat (bytesAt out 40 4) = 4
      \<and> length out = 48"
  using audioBufferToWav_header
          [of "\<lparr>sampleRate = 24000, length_buf = 2, channels = [[- 2, 1 / 2]]\<rparr>"]
  by (simp add: numberOfChannels_def str_def)

text \<open>
  C6. A sample of 1.5 encodes to the same bytes as 1.0 at the same position, and -2.0 to
  the same bytes as -1.0; in general a sample encodes as its clamped value does.
\<close>

theorem audioBufferToWav_clamp:
  "audioBufferToWav (setSample buffer c i (3 / 2)) = audioBufferToWav (setSample buffer c i 1)
   \<and> audioBufferToWav (setSample buffer c i (- 2)) = audioBufferToWav (setSample buffer c i (- 1))
   \<and> (\<forall>x. audioBufferToWav (setSample buffer c i x) =
            audioBufferToWav (setSample buffer c i (max (- 1) (min 1 x))))"
proof -
  have g: "audioBufferToWav (setSample buffer c i x) =
           audioBufferToWav (setSample buffer c i (max (- 1) (min 1 x)))" for x
    by (rule setSample_cong) (rule sampleBytes_clamp)
  from g[of "3 / 2"] g[of "- 2"] g show ?thesis by simp
qed

subsection \<open>A buffer of two frames, encoded\<close>


lemma encoder_example:
  "audioBufferToWav \<lparr>sampleRate = 24000, length_buf = 2, channels = [[- 2, 1 / 2]]\<rparr> =
     Some [82, 73, 70, 70, 40, 0, 0, 0, 87, 65, 86, 69, 102, 109, 116, 32, 16, 0, 0, 0, 1, 0, 1, 0,
           192, 93, 0, 0, 128, 187, 0, 0, 2, 0, 16, 0, 100, 97, 116, 97, 4, 0, 0, 0,
           0, 128, 255, 63]"
proof -
  let ?b = "\<lparr>sampleRate = 24000, length_buf = 2, channels = [[- 2, 1 / 2]]\<rparr>"
  have s: "sampleBytes (Num (1 / 2)) = [255, 63]" "sampleBytes (Num (- 2)) = [0, 128]"
    by (simp_all add: sampleBytes_def quantize_def bytes16_def jsTruncate_def drop_bit_eq_div
        floor_rat_numeral_div)
  have u: "[0 ..< 2] = [0, 1]" "[0 ..< Suc 0] = [0]" by (simp_all add: upt_rec)
  have p: "pcmBytes [[- 2, 1 / 2]] (Suc 0) 2 0 = [0, 128, 255, 63]"
    by (simp add: pcmBytes_def frameBytes_def u typedArrayGet_def s)
  have h: "wavHeader ?b =
      [82, 73, 70, 70, 40, 0, 0, 0, 87, 65, 86, 69, 102, 109, 116, 32, 16, 0, 0, 0, 1, 0, 1, 0,
       192, 93, 0, 0, 128, 187, 0, 0, 2, 0, 16, 0, 100, 97, 116, 97, 4, 0, 0, 0]"
    by (simp add: wavHeader_def numberOfChannels_def stringBytes_def str_def bytes32_def
        bytes16_def drop_bit_eq_div)
  show ?thesis
    unfolding audioBufferToWav_bytes h by (simp add: numberOfChannels_def p)
qed
section \<open>Double-precision arithmetic: lemmas\<close>

text \<open>
  The binade brackets its argument; rounding to nearest is monotone, odd, and exact on
  every multiple of a power of two that has a significand below \<open>2 ^ 53\<close>.
\<close>

lemma halvings_bracket: "1 \<le> x \<Longrightarrow> 2 ^ halvings x \<le> x \<and> x < 2 ^ Suc (halvings x)"
proof (induction x rule: halvings.induct)
  case (1 x)
  show ?case
  proof (cases "x < 2")
    case True
    then show ?thesis using 1(2) by (subst (1 2) halvings.simps) simp
  next
    case False
    then have "1 \<le> x / 2" by simp
    from 1(1)[OF False this] show ?thesis
      using False by (subst (1 2) halvings.simps) (simp add: field_simps)
  qed
qed

lemma doublings_bracket:
  "0 < x \<Longrightarrow> x < 1 \<Longrightarrow> 1 \<le> x * 2 ^ doublings x \<and> x * 2 ^ doublings x < 2"
proof (induction x rule: doublings.induct)
  case (1 x)
  have n: "\<not> (x \<le> 0 \<or> 1 \<le> x)" using 1(2,3) by simp
  show ?case
  proof (cases "2 * x < 1")
    case True
    from 1(1)[OF n _ True] 1(2) show ?thesis
      using n by (subst (1 2) doublings.simps) (simp add: field_simps)
  next
    case False
    have "doublings (2 * x) = 0" using False by (subst doublings.simps) simp
    then have "doublings x = 1" using n by (subst doublings.simps) simp
    then show ?thesis using False 1(3) by simp
  qed
qed

lemma binade_bracket:
  assumes "0 < x"
  shows "2 powi binade x \<le> x \<and> x < 2 powi (binade x + 1)"
proof (cases "1 \<le> x")
  case True
  then have e: "binade x = int (halvings x)" by (simp add: binade_def)
  have "2 powi (int (halvings x) + 1) = (2::rat) ^ Suc (halvings x)"
    by (simp add: power_int_add)
  then show ?thesis using halvings_bracket[OF True] unfolding e by simp
next
  case False
  then have x1: "x < 1" by simp
  have e: "binade x = - int (doublings x)" using False by (simp add: binade_def)
  note B = doublings_bracket[OF assms x1]
  have a: "2 powi (- int (doublings x)) = 1 / (2::rat) ^ doublings x"
    by (simp add: power_int_minus_divide)
  have b: "2 powi (- int (doublings x) + 1) = 2 / (2::rat) ^ doublings x"
    using power_int_add[of "2::rat" "- int (doublings x)" 1]
    by (simp add: power_int_minus_divide)
  show ?thesis unfolding e a b using B by (simp add: field_simps)
qed

lemma powi_le: "a \<le> b \<Longrightarrow> (2::rat) powi a \<le> 2 powi b"
  by (rule power_int_increasing) simp_all

lemma powi_pos [simp]: "0 < (2::rat) powi a"
  by (rule zero_less_power_int) simp

lemma binade_unique:
  assumes "0 < x" and "2 powi e \<le> x" and "x < 2 powi (e + 1)"
  shows "binade x = e"
proof (rule antisym)
  note B = binade_bracket[OF assms(1)]
  show "binade x \<le> e"
  proof (rule ccontr)
    assume "\<not> binade x \<le> e"
    then have "e + 1 \<le> binade x" by simp
    then have "(2::rat) powi (e + 1) \<le> 2 powi binade x" by (rule powi_le)
    then show False using B assms(3) by simp
  qed
  show "e \<le> binade x"
  proof (rule ccontr)
    assume "\<not> e \<le> binade x"
    then have "binade x + 1 \<le> e" by simp
    then have "(2::rat) powi (binade x + 1) \<le> 2 powi e" by (rule powi_le)
    then show False using B assms(2) by simp
  qed
qed

lemma binade_mono:
  assumes "0 < x" and "x \<le> y"
  shows "binade x \<le> binade y"
proof (rule ccontr)
  assume "\<not> binade x \<le> binade y"
  then have "binade y + 1 \<le> binade x" by simp
  then have "(2::rat) powi (binade y + 1) \<le> 2 powi binade x" by (rule powi_le)
  moreover have "0 < y" using assms by simp
  ultimately show False
    using binade_bracket[OF assms(1)] binade_bracket[OF \<open>0 < y\<close>] assms(2) by simp
qed

lemma roundTiesToEven_of_int [simp]: "roundTiesToEven (of_int z) = z"
  by (simp add: roundTiesToEven_def)

lemma roundTiesToEven_bounds:
  "\<lfloor>m\<rfloor> \<le> roundTiesToEven m" "roundTiesToEven m \<le> \<lfloor>m\<rfloor> + 1"
  by (simp_all add: roundTiesToEven_def Let_def)

lemma roundTiesToEven_mono:
  assumes "m \<le> n"
  shows "roundTiesToEven m \<le> roundTiesToEven n"
proof (cases "\<lfloor>m\<rfloor> = \<lfloor>n\<rfloor>")
  case True
  have "m - of_int \<lfloor>n\<rfloor> \<le> n - of_int \<lfloor>n\<rfloor>" using assms by simp
  then show ?thesis unfolding roundTiesToEven_def Let_def True by auto
next
  case False
  then have "\<lfloor>m\<rfloor> + 1 \<le> \<lfloor>n\<rfloor>" using floor_mono[OF assms] by simp
  then show ?thesis
    using roundTiesToEven_bounds(2)[of m] roundTiesToEven_bounds(1)[of n] by simp
qed

lemma roundTiesToEven_minus: "roundTiesToEven (- m) = - roundTiesToEven m"
proof (cases "m = of_int \<lfloor>m\<rfloor>")
  case True
  then obtain z where "m = of_int z" ..
  then have "- m = of_int (- z)" by simp
  then show ?thesis using \<open>m = of_int z\<close> by (simp only: roundTiesToEven_of_int)
next
  case False
  then have f: "\<lfloor>- m\<rfloor> = - \<lfloor>m\<rfloor> - 1"
  proof -
    have "of_int \<lfloor>m\<rfloor> < m" using False by (metis floor_correct less_le)
    then have "of_int (- \<lfloor>m\<rfloor> - 1) \<le> - m \<and> - m < of_int (- \<lfloor>m\<rfloor> - 1) + 1"
      using floor_correct[of m] by simp
    then show ?thesis by (simp add: floor_unique)
  qed
  have r: "- m - of_int (- \<lfloor>m\<rfloor> - 1) = 1 - (m - of_int \<lfloor>m\<rfloor>)" by simp
  have e: "even (- \<lfloor>m\<rfloor> - 1) \<longleftrightarrow> odd \<lfloor>m\<rfloor>" by simp
  show ?thesis unfolding roundTiesToEven_def Let_def f r e by auto
qed


lemma fl_0 [simp]: "fl 0 = 0"
  by (simp add: fl_def)

lemma fl_minus: "fl (- x) = - fl x"
  by (simp add: fl_def Let_def roundTiesToEven_minus)

lemma fl_eq:
  assumes "x \<noteq> 0" and "2 powi e \<le> \<bar>x\<bar>" and "\<bar>x\<bar> < 2 powi (e + 1)"
  shows "fl x = of_int (roundTiesToEven (x / 2 powi (max (e - 52) (- 1074))))
                  * 2 powi (max (e - 52) (- 1074))"
proof -
  have "0 < \<bar>x\<bar>" using assms(1) by simp
  then have "binade \<bar>x\<bar> = e" using assms(2,3) by (rule binade_unique)
  then show ?thesis using assms(1) by (simp add: fl_def Let_def)
qed

lemma grid_le:
  assumes "0 < u" and "x \<le> of_int N * u"
  shows "of_int (roundTiesToEven (x / u)) * u \<le> of_int N * u"
proof -
  have "x / u \<le> of_int N" using assms by (simp add: pos_divide_le_eq)
  then have "roundTiesToEven (x / u) \<le> roundTiesToEven (of_int N)"
    by (rule roundTiesToEven_mono)
  then have "(of_int (roundTiesToEven (x / u)) :: rat) \<le> of_int N" by simp
  then show ?thesis using assms(1) by (simp add: mult_right_mono)
qed

lemma grid_ge:
  assumes "0 < u" and "of_int N * u \<le> x"
  shows "of_int N * u \<le> of_int (roundTiesToEven (x / u)) * u"
proof -
  have "of_int N \<le> x / u" using assms by (simp add: pos_le_divide_eq)
  then have "roundTiesToEven (of_int N) \<le> roundTiesToEven (x / u)"
    by (rule roundTiesToEven_mono)
  then have "(of_int N :: rat) \<le> of_int (roundTiesToEven (x / u))" by simp
  then show ?thesis using assms(1) by (simp add: mult_right_mono)
qed

lemma powi_multiple:
  assumes "q \<le> e"
  shows "(2::rat) powi e = of_int (2 ^ nat (e - q)) * 2 powi q"
proof -
  have "(2::rat) powi e = 2 powi ((e - q) + q)" by simp
  also have "\<dots> = 2 powi (e - q) * 2 powi q" by (rule power_int_add) simp
  also have "(2::rat) powi (e - q) = 2 ^ nat (e - q)"
    using assms by (simp add: power_int_nonneg_exp)
  finally show ?thesis by simp
qed

lemma fl_nonneg:
  assumes "0 \<le> x"
  shows "0 \<le> fl x"
proof (cases "x = 0")
  case False
  define q where "q = max (binade \<bar>x\<bar> - 52) (- 1074)"
  have "0 \<le> x / 2 powi q" using assms by simp
  then have "0 \<le> \<lfloor>x / 2 powi q\<rfloor>" by simp
  then have "0 \<le> roundTiesToEven (x / 2 powi q)"
    using roundTiesToEven_bounds(1)[of "x / 2 powi q"] by linarith
  then show ?thesis using False by (simp add: fl_def Let_def q_def[symmetric])
qed simp

lemma fl_mono_pos:
  assumes "0 < x" and "x \<le> y"
  shows "fl x \<le> fl y"
proof -
  define qx where "qx = max (binade \<bar>x\<bar> - 52) (- 1074)"
  define qy where "qy = max (binade \<bar>y\<bar> - 52) (- 1074)"
  have y: "0 < y" using assms by simp
  have fx: "fl x = of_int (roundTiesToEven (x / 2 powi qx)) * 2 powi qx"
    using assms(1) by (simp add: fl_def Let_def qx_def)
  have fy: "fl y = of_int (roundTiesToEven (y / 2 powi qy)) * 2 powi qy"
    using y by (simp add: fl_def Let_def qy_def)
  have ee: "binade x \<le> binade y" using assms by (rule binade_mono)
  have ax: "\<bar>x\<bar> = x" "\<bar>y\<bar> = y" using assms(1) y by simp_all
  have qq: "qx \<le> qy" using ee by (simp add: qx_def qy_def ax)
  show ?thesis
  proof (cases "qx = qy")
    case True
    have "x / 2 powi qy \<le> y / 2 powi qy" using assms(2) by (simp add: divide_right_mono)
    then have "roundTiesToEven (x / 2 powi qy) \<le> roundTiesToEven (y / 2 powi qy)"
      by (rule roundTiesToEven_mono)
    then show ?thesis unfolding fx fy True by (simp add: mult_right_mono)
  next
    case False
    then have lt: "qx < qy" using qq by simp
    then have qy: "qy = binade y - 52" by (auto simp add: qx_def qy_def ax max_def split: if_splits)
    have exy: "binade x < binade y" using lt by (auto simp add: qx_def qy_def ax max_def split: if_splits)
    define g where "g = (2::rat) powi binade y"
    have "x < 2 powi (binade x + 1)" using binade_bracket[OF assms(1)] by simp
    also have "\<dots> \<le> g" unfolding g_def using exy by (intro powi_le) simp
    finally have xg: "x \<le> g" by simp
    have gy: "g \<le> y" unfolding g_def using binade_bracket[OF y] by simp
    have mx: "g = of_int (2 ^ nat (binade y - qx)) * 2 powi qx"
      unfolding g_def using lt qy by (intro powi_multiple) simp
    have my: "g = of_int (2 ^ nat (binade y - qy)) * 2 powi qy"
      unfolding g_def using qy by (intro powi_multiple) simp
    have "fl x \<le> g"
      unfolding fx using grid_le[of "2 powi qx" x "2 ^ nat (binade y - qx)"] xg mx by simp
    moreover have "g \<le> fl y"
      unfolding fy using grid_ge[of "2 powi qy" "2 ^ nat (binade y - qy)" y] gy my by simp
    ultimately show ?thesis by simp
  qed
qed

lemma fl_mono:
  assumes "x \<le> y"
  shows "fl x \<le> fl y"
proof -
  consider "0 < x" | "x \<le> 0" "0 \<le> y" | "y < 0" by linarith
  then show ?thesis
  proof cases
    case 1
    then show ?thesis using assms by (rule fl_mono_pos)
  next
    case 2
    have "0 \<le> fl (- x)" using 2(1) by (intro fl_nonneg) simp
    then have "fl x \<le> 0" by (simp add: fl_minus)
    moreover have "0 \<le> fl y" using 2(2) by (rule fl_nonneg)
    ultimately show ?thesis by simp
  next
    case 3
    have "fl (- y) \<le> fl (- x)" using 3 assms by (intro fl_mono_pos) simp_all
    then show ?thesis by (simp add: fl_minus)
  qed
qed

lemma fl_exact:
  assumes "\<bar>m\<bar> < 2 ^ 53" and "- 1074 \<le> q"
  shows "fl (of_int m * 2 powi q) = of_int m * 2 powi q"
proof (cases "m = 0")
  case False
  define x :: rat where "x = of_int m * 2 powi q"
  define p where "p = max (binade \<bar>x\<bar> - 52) (- 1074)"
  have x0: "x \<noteq> 0" using False by (simp add: x_def)
  have ax: "\<bar>x\<bar> = of_int \<bar>m\<bar> * 2 powi q" by (simp add: x_def abs_mult)
  have "(of_int \<bar>m\<bar> :: rat) < of_int (2 ^ 53)" using assms(1) by (simp only: of_int_less_iff)
  then have "\<bar>x\<bar> < 2 ^ 53 * 2 powi q" unfolding ax by (simp add: mult_strict_right_mono)
  also have "\<dots> = 2 powi (53 + q)" by (subst power_int_add) simp_all
  finally have up: "\<bar>x\<bar> < 2 powi (53 + q)" .
  have "binade \<bar>x\<bar> < 53 + q"
  proof (rule ccontr)
    assume "\<not> binade \<bar>x\<bar> < 53 + q"
    then have "(2::rat) powi (53 + q) \<le> 2 powi binade \<bar>x\<bar>" by (intro powi_le) simp
    then show False using binade_bracket[of "\<bar>x\<bar>"] x0 up by simp
  qed
  then have pq: "p \<le> q" using assms(2) by (simp add: p_def)
  have "(2::rat) powi q = of_int (2 ^ nat (q - p)) * 2 powi p" using pq by (rule powi_multiple)
  then have "x / 2 powi p = of_int (m * 2 ^ nat (q - p))" by (simp add: x_def)
  then have "roundTiesToEven (x / 2 powi p) = m * 2 ^ nat (q - p)"
    by (simp only: roundTiesToEven_of_int)
  then have "fl x = of_int (m * 2 ^ nat (q - p)) * 2 powi p"
    using x0 by (simp add: fl_def Let_def p_def[symmetric])
  also have "\<dots> = of_int m * (of_int (2 ^ nat (q - p)) * 2 powi p)" by simp
  also have "\<dots> = x" unfolding x_def using powi_multiple[OF pq] by simp
  finally show ?thesis by (simp add: x_def)
qed simp

lemma fl_of_int: "\<bar>m\<bar> < 2 ^ 53 \<Longrightarrow> fl (of_int m) = of_int m"
  using fl_exact[of m 0] by simp

lemma roundTiesToEven_abs_le:
  assumes "\<bar>m\<bar> \<le> of_int N"
  shows "\<bar>roundTiesToEven m\<bar> \<le> N"
proof -
  have a: "m \<le> of_int N" and b: "of_int (- N) \<le> m" using assms by simp_all
  have "roundTiesToEven m \<le> roundTiesToEven (of_int N)"
    using a by (rule roundTiesToEven_mono)
  moreover have "roundTiesToEven (of_int (- N)) \<le> roundTiesToEven m"
    using b by (rule roundTiesToEven_mono)
  ultimately show ?thesis by (simp add: roundTiesToEven_minus)
qed

lemma fl_idem: "fl (fl x) = fl x"
proof (cases "x = 0")
  case False
  define q where "q = max (binade \<bar>x\<bar> - 52) (- 1074)"
  define N where "N = roundTiesToEven (x / 2 powi q)"
  have f: "fl x = of_int N * 2 powi q" using False by (simp add: fl_def Let_def q_def N_def)
  have q: "- 1074 \<le> q" "binade \<bar>x\<bar> + 1 - q \<le> 53" by (simp_all add: q_def)
  have "\<bar>x\<bar> < 2 powi (binade \<bar>x\<bar> + 1)" using binade_bracket[of "\<bar>x\<bar>"] False by simp
  also have "\<dots> \<le> 2 powi (53 + q)" using q(2) by (intro powi_le) simp
  also have "\<dots> = 2 ^ 53 * 2 powi q" by (subst power_int_add) simp_all
  finally have "\<bar>x\<bar> / 2 powi q < 2 ^ 53" by (simp add: pos_divide_less_eq)
  then have "\<bar>x / 2 powi q\<bar> \<le> of_int (2 ^ 53)" by (simp add: abs_divide less_imp_le)
  then have N: "\<bar>N\<bar> \<le> 2 ^ 53" unfolding N_def by (rule roundTiesToEven_abs_le)
  show ?thesis
  proof (cases "\<bar>N\<bar> < 2 ^ 53")
    case True
    then show ?thesis unfolding f using q(1) by (rule fl_exact)
  next
    case False
    then have "N = 2 ^ 53 \<or> N = - (2 ^ 53)" using N by linarith
    then have "of_int N * 2 powi q = of_int 1 * (2::rat) powi (q + 53)
               \<or> of_int N * 2 powi q = of_int (- 1) * (2::rat) powi (q + 53)"
      by (auto simp add: power_int_add)
    moreover have "fl (of_int 1 * 2 powi (q + 53)) = of_int 1 * 2 powi (q + 53)"
      using q(1) by (intro fl_exact) simp_all
    moreover have "fl (of_int (- 1) * 2 powi (q + 53)) = of_int (- 1) * 2 powi (q + 53)"
      using q(1) by (intro fl_exact) simp_all
    ultimately show ?thesis unfolding f by metis
  qed
qed simp

subsection \<open>Operations on non-negative finite numbers\<close>

lemma round64_nonneg:
  "0 \<le> x \<Longrightarrow> round64 x = (if 2 ^ 1024 \<le> fl x then PosInfinity else Finite (fl x))"
  using fl_nonneg[of x] by (simp add: round64_def Let_def)

lemma round64_0 [simp]: "round64 0 = Finite 0"
  by (simp add: round64_def)

lemma sub64_Finite: "sub64 (Finite a) (Finite b) = round64 (a - b)"
  by (simp add: sub64_def isInf64_def zero64_def)

lemma div64_nonneg: "0 \<le> a \<Longrightarrow> 0 < b \<Longrightarrow> div64 (Finite a) (Finite b) = round64 (a / b)"
  by (auto simp add: div64_def isInf64_def isZero64_def zero64_def)

lemma div64_PosInfinity: "0 < b \<Longrightarrow> div64 PosInfinity (Finite b) = PosInfinity"
  by (simp add: div64_def isInf64_def inf64_def)

lemma mul64_nonneg: "0 \<le> a \<Longrightarrow> 0 \<le> b \<Longrightarrow> mul64 (Finite a) (Finite b) = round64 (a * b)"
  by (auto simp add: mul64_def isInf64_def isZero64_def zero64_def)

lemma Math_min64_Finite: "Math_min64 (Finite a) (Finite b) = Finite (min a b)"
  by (auto simp add: Math_min64_def lt64_def)

lemma Math_min64_PosInfinity: "Math_min64 (Finite a) PosInfinity = Finite a"
  by (simp add: Math_min64_def lt64_def)

lemma fl_1 [simp]: "fl 1 = 1"
  using fl_of_int[of 1] by simp

lemma fl_ge_1: "1 \<le> x \<Longrightarrow> 1 \<le> fl x"
  using fl_mono[of 1 x] by simp

lemma progress_closed:
  assumes "0 \<le> e" and "0 < D"
  shows "Math_min64 (Finite 1) (div64 (round64 e) (Finite D)) = Finite (progressAt D e)"
proof (cases "2 ^ 1024 \<le> fl e")
  case True
  then show ?thesis
    using assms by (simp add: round64_nonneg div64_PosInfinity Math_min64_PosInfinity progressAt_def)
next
  case False
  have y: "0 \<le> fl e" using assms(1) by (rule fl_nonneg)
  then have q: "0 \<le> fl e / D" using assms(2) by simp
  have "div64 (round64 e) (Finite D) = round64 (fl e / D)"
    using False assms y by (simp add: round64_nonneg div64_nonneg)
  also have "\<dots> = (if 2 ^ 1024 \<le> fl (fl e / D) then PosInfinity else Finite (fl (fl e / D)))"
    using q by (rule round64_nonneg)
  finally show ?thesis
    using False by (auto simp add: Math_min64_PosInfinity Math_min64_Finite progressAt_def)
qed

lemma progressAt_range: "0 \<le> e \<Longrightarrow> 0 < D \<Longrightarrow> 0 \<le> progressAt D e \<and> progressAt D e \<le> 1"
  using fl_nonneg[of "fl e / D"] fl_nonneg[of e] by (simp add: progressAt_def)


lemma progressAt_double:
  assumes "0 \<le> e" and "0 < D" and "D < 2 ^ 1024"
  shows "progressAt D e = min 1 (fl (fl e / D))"
proof (cases "2 ^ 1024 \<le> fl e")
  case True
  then have "1 \<le> fl e / D" using assms(2,3) by simp
  then have "1 \<le> fl (fl e / D)" by (rule fl_ge_1)
  then show ?thesis using True by (simp add: progressAt_def)
qed (simp add: progressAt_def)

lemma progressAt_end:
  assumes "0 < D" and "D \<le> fl e"
  shows "progressAt D e = 1"
proof -
  have "1 \<le> fl e / D" using assms by simp
  then have "1 \<le> fl (fl e / D)" by (rule fl_ge_1)
  then show ?thesis by (simp add: progressAt_def)
qed


lemma round64_Finite_double:
  assumes "round64 r = Finite y"
  shows "fl y = y"
  using assms fl_idem[of r] by (auto simp add: round64_def Let_def split: if_splits)

lemma div64_Finite_double:
  assumes "div64 a b = Finite D"
  shows "fl D = D"
  using assms
  by (auto simp add: div64_def zero64_def inf64_def split: if_splits dest: round64_Finite_double)

lemma elapsed_reached:
  assumes "fl D = D" and "D \<le> e"
  shows "D \<le> fl e"
  using fl_mono[OF assms(2)] assms(1) by simp

subsection \<open>The order of the results of operations\<close>






















section \<open>Playback: lemmas\<close>

lemma updateKaraoke_eq:
  "updateKaraoke k (s, h) =
     (if lt64 (round64 (currentTime h - startTimeRef s)) (kDuration k)
      then (s\<lparr>currentWordIndex := indexAt k (currentTime h - startTimeRef s),
               animationFrameRef := nextFrame h\<rparr>,
            h\<lparr>rafQueue := rafQueue h @ [(nextFrame h, k)], nextFrame := Suc (nextFrame h)\<rparr>)
      else (s\<lparr>currentWordIndex := indexAt k (currentTime h - startTimeRef s)\<rparr>, h))"
  by (simp add: updateKaraoke_def indexAt_def Let_def requestAnimationFrame_def sub64_Finite)

lemma indexAt_closed:
  assumes "kDuration k = Finite D" and "0 < D" and "0 \<le> e"
  shows "indexAt k e = Math_floor (round64 (progressAt D e * of_nat (length (kWords k))))"
proof -
  have "0 \<le> progressAt D e" using progressAt_range[OF assms(3,2)] by simp
  then show ?thesis
    unfolding indexAt_def assms(1) progress_closed[OF assms(3,2)] by (simp add: mul64_nonneg)
qed

lemma lt64_reached:
  assumes "0 < D" and "D \<le> fl e"
  shows "\<not> lt64 (round64 e) (Finite D)"
proof -
  have "0 \<le> e"
  proof (rule ccontr)
    assume "\<not> 0 \<le> e"
    then have "fl e \<le> fl 0" by (intro fl_mono) simp
    then show False using assms by simp
  qed
  then show ?thesis using assms by (simp add: round64_nonneg lt64_def)
qed


lemma round64_of_nat:
  assumes "n < 2 ^ 53"
  shows "round64 (of_nat n) = Finite (of_nat n)"
proof -
  have "\<bar>int n\<bar> < 2 ^ 53" using assms by (simp add: of_nat_less_numeral_power_cancel_iff)
  then have f: "fl (of_nat n) = of_nat n" using fl_of_int[of "int n"] by simp
  have "(of_nat n :: rat) < of_nat (2 ^ 53)" using assms by (simp only: of_nat_less_iff)
  also have "\<dots> < 2 ^ 1024" by simp
  finally have "\<not> 2 ^ 1024 \<le> (of_nat n :: rat)" by simp
  then show ?thesis using round64_nonneg[of "of_nat n"] f by simp
qed

lemma indexAt_end:
  assumes "kDuration k = Finite D" and "0 < D" and "D \<le> fl e" and "length (kWords k) < 2 ^ 53"
  shows "indexAt k e = Finite (of_nat (length (kWords k)))"
proof -
  have e: "0 \<le> e"
  proof (rule ccontr)
    assume "\<not> 0 \<le> e"
    then have "fl e \<le> fl 0" by (intro fl_mono) simp
    then show False using assms(2,3) by simp
  qed
  have "progressAt D e = 1" using assms(2,3) by (rule progressAt_end)
  then show ?thesis
    unfolding indexAt_closed[OF assms(1,2) e] by (simp add: round64_of_nat[OF assms(4)])
qed

lemma indexAt_clamp:
  assumes "kDuration k = Finite D" and "0 < D" and "D < 2 ^ 1024" and "0 \<le> e"
  shows "indexAt k e
         = Math_floor (round64 (clamp (fl (fl e / D)) 0 1 * of_nat (length (kWords k))))"
proof -
  have "0 \<le> fl e / D" using fl_nonneg[OF assms(4)] assms(2) by simp
  then have "0 \<le> fl (fl e / D)" by (rule fl_nonneg)
  then have "clamp (fl (fl e / D)) 0 1 = min 1 (fl (fl e / D))" by (simp add: clamp_def)
  then show ?thesis
    unfolding indexAt_closed[OF assms(1,2,4)] progressAt_double[OF assms(4,2,3)] by simp
qed




lemma sameButCursor_refl [simp]: "sameButCursor x x"
  by (simp add: sameButCursor_def)

lemma sameButCursor_trans: "sameButCursor x y \<Longrightarrow> sameButCursor y z \<Longrightarrow> sameButCursor x z"
  by (simp add: sameButCursor_def)

lemma updateKaraoke_same: "sameButCursor (s, h) (updateKaraoke k (s, h))"
  by (simp add: updateKaraoke_eq sameButCursor_def)

lemma fold_tick:
  assumes "\<forall>(i, c) \<in> set q. c = k"
  shows "sameButCursor (s, h) (fold (\<lambda>(i, c). updateKaraoke c) q (s, h))
       \<and> (q \<noteq> [] \<longrightarrow> currentWordIndex (fst (fold (\<lambda>(i, c). updateKaraoke c) q (s, h)))
                      = indexAt k (currentTime h - startTimeRef s))
       \<and> (q = [] \<longrightarrow> fold (\<lambda>(i, c). updateKaraoke c) q (s, h) = (s, h))
       \<and> (\<forall>(i, c) \<in> set (rafQueue (snd (fold (\<lambda>(i, c). updateKaraoke c) q (s, h)))).
              c = k \<or> (i, c) \<in> set (rafQueue h))
       \<and> (\<not> lt64 (round64 (currentTime h - startTimeRef s)) (kDuration k)
            \<longrightarrow> rafQueue (snd (fold (\<lambda>(i, c). updateKaraoke c) q (s, h))) = rafQueue h)
       \<and> (lt64 (round64 (currentTime h - startTimeRef s)) (kDuration k) \<and> q \<noteq> []
            \<longrightarrow> rafQueue (snd (fold (\<lambda>(i, c). updateKaraoke c) q (s, h))) \<noteq> [])"
  using assms
proof (induction q arbitrary: s h)
  case Nil
  then show ?case by auto
next
  case (Cons a q)
  obtain i where a: "a = (i, k)" using Cons.prems by (cases a) auto
  obtain s1 h1 where u: "updateKaraoke k (s, h) = (s1, h1)" by (cases "updateKaraoke k (s, h)")
  have same: "sameButCursor (s, h) (s1, h1)" using updateKaraoke_same[of s h k] u by simp
  then have t: "currentTime h1 - startTimeRef s1 = currentTime h - startTimeRef s"
    by (simp add: sameButCursor_def)
  have q: "\<forall>(i, c) \<in> set q. c = k" using Cons.prems by simp
  note IH = Cons.IH[OF q, of s1 h1, unfolded t]
  let ?e = "currentTime h - startTimeRef s"
  let ?x = "fold (\<lambda>(i, c). updateKaraoke c) q (s1, h1)"
  have c1: "currentWordIndex s1 = indexAt k ?e"
    using u by (simp add: updateKaraoke_eq split: if_splits) auto
  have q1: "\<forall>(i, c) \<in> set (rafQueue h1). c = k \<or> (i, c) \<in> set (rafQueue h)"
    using u by (auto simp add: updateKaraoke_eq split: if_splits)
  have q2: "\<not> lt64 (round64 ?e) (kDuration k) \<Longrightarrow> rafQueue h1 = rafQueue h"
    using u by (auto simp add: updateKaraoke_eq split: if_splits)
  have q3: "lt64 (round64 ?e) (kDuration k) \<Longrightarrow> rafQueue h1 \<noteq> []"
    using u by (auto simp add: updateKaraoke_eq split: if_splits)
  have "sameButCursor (s, h) ?x"
    using same IH by (blast intro: sameButCursor_trans)
  moreover have "currentWordIndex (fst ?x) = indexAt k ?e"
    using IH c1 by (cases "q = []") auto
  moreover have "\<forall>(i, c) \<in> set (rafQueue (snd ?x)). c = k \<or> (i, c) \<in> set (rafQueue h)"
    using IH q1 by fastforce
  moreover have "\<not> lt64 (round64 ?e) (kDuration k) \<longrightarrow> rafQueue (snd ?x) = rafQueue h"
    using IH q2 by simp
  moreover have "lt64 (round64 ?e) (kDuration k) \<longrightarrow> rafQueue (snd ?x) \<noteq> []"
    using IH q3 by (cases "q = []") auto
  ultimately show ?case by (simp add: a u)
qed

lemma animationFrame_tick:
  assumes "\<forall>(i, c) \<in> set (rafQueue h). c = k"
  shows "sameButCursor (s, h) (animationFrame (s, h))
       \<and> (rafQueue h \<noteq> [] \<longrightarrow> currentWordIndex (fst (animationFrame (s, h)))
                      = indexAt k (currentTime h - startTimeRef s))
       \<and> (rafQueue h = [] \<longrightarrow> animationFrame (s, h) = (s, h))
       \<and> (\<forall>(i, c) \<in> set (rafQueue (snd (animationFrame (s, h)))). c = k)
       \<and> (\<not> lt64 (round64 (currentTime h - startTimeRef s)) (kDuration k)
            \<longrightarrow> rafQueue (snd (animationFrame (s, h))) = [])
       \<and> (lt64 (round64 (currentTime h - startTimeRef s)) (kDuration k) \<and> rafQueue h \<noteq> []
            \<longrightarrow> rafQueue (snd (animationFrame (s, h))) \<noteq> [])"
proof -
  let ?h0 = "h\<lparr>rafQueue := []\<rparr>"
  let ?x = "fold (\<lambda>(i, c). updateKaraoke c) (rafQueue h) (s, ?h0)"
  note F = fold_tick[OF assms, of s ?h0]
  have a: "animationFrame (s, h) = ?x" by (simp add: animationFrame_def)
  have "sameButCursor (s, h) (s, ?h0)" by (simp add: sameButCursor_def)
  then have "sameButCursor (s, h) ?x" using F by (blast intro: sameButCursor_trans)
  moreover have "rafQueue h = [] \<longrightarrow> ?x = (s, h)" by simp
  moreover have "\<forall>(i, c) \<in> set (rafQueue (snd ?x)). c = k" using F by simp
  ultimately show ?thesis unfolding a using F by simp
qed

lemma cancel_twice [simp]:
  "cancelAnimationFrame i (cancelAnimationFrame i h) = cancelAnimationFrame i h"
  by (simp add: cancelAnimationFrame_def)

lemma karaokeEffect_idle:
  "\<not> isPlaying s \<or> audioBuffer s = None \<or> audioContext s = None \<Longrightarrow>
   karaokeEffect (s, h) = (s\<lparr>currentWordIndex := Finite (- 1)\<rparr>, cancelAnimationFrame (animationFrameRef s) h)"
  by (cases "isPlaying s"; cases "audioBuffer s"; cases "audioContext s")
    (simp_all add: karaokeEffect_def)

lemma karaokeEffect_playing:
  "isPlaying s \<Longrightarrow> audioBuffer s = Some b \<Longrightarrow> audioContext s = Some c \<Longrightarrow>
   karaokeEffect (s, h) =
     (s\<lparr>animationFrameRef := nextFrame h\<rparr>,
      h\<lparr>rafQueue := filter (\<lambda>(i, cb). i \<noteq> animationFrameRef s) (rafQueue h)
                      @ [(nextFrame h, \<lparr>kWords = split_ws (stripTags (text' s)),
                                        kDuration = div64 (duration b) (Finite (playbackRate s))\<rparr>)],
        nextFrame := Suc (nextFrame h)\<rparr>)"
  by (simp add: karaokeEffect_def requestAnimationFrame_def cancelAnimationFrame_def)

lemma dispatch_handleStop:
  "isPlaying s \<Longrightarrow> sourceNode s = Some p \<Longrightarrow>
   dispatch handleStop (s, h) =
     (s\<lparr>isPlaying := False, currentWordIndex := Finite (- 1)\<rparr>,
      cancelAnimationFrame (animationFrameRef s) (try_catch (stop p h)))"
  by (simp add: dispatch_def handleStop_def commit_def paramDeps_def karaokeDeps_def
      karaokeEffect_idle)

lemma dispatch_ended:
  "isPlaying s \<Longrightarrow> p < length (sources h) \<Longrightarrow> srcState (sources h ! p) \<in> {Playing, Stopped} \<Longrightarrow>
   srcOnended (sources h ! p) \<Longrightarrow>
   dispatch (ended p) (s, h) =
     (s\<lparr>isPlaying := False, currentWordIndex := Finite (- 1)\<rparr>,
      cancelAnimationFrame (animationFrameRef s) (updSource p (\<lambda>n. n\<lparr>srcState := Ended\<rparr>) h))"
  by (simp add: dispatch_def ended_def commit_def paramDeps_def karaokeDeps_def
      karaokeEffect_idle)

lemma karaokeRun_idle:
  "rafQueue h = [] \<Longrightarrow> karaokeRun dts (s, h) = replicate (length dts) (currentWordIndex s)"
proof (induction dts arbitrary: h)
  case Nil
  then show ?case by simp
next
  case (Cons dt dts)
  have "animationFrame (advance dt (s, h)) = (s, h\<lparr>currentTime := currentTime h + dt\<rparr>)"
    using Cons.prems by (simp add: animationFrame_def advance_def)
  then show ?case using Cons.IH[of "h\<lparr>currentTime := currentTime h + dt\<rparr>"] Cons.prems by simp
qed






lemma active_iff:
  "p \<in> set (active h) \<longleftrightarrow> p < length (sources h) \<and> srcState (sources h ! p) = Playing"
  by (auto simp add: active_def)

lemma active_empty_iff:
  "active h = [] \<longleftrightarrow> (\<forall>p < length (sources h). srcState (sources h ! p) \<noteq> Playing)"
  by (auto simp add: active_def filter_empty_conv)

lemma invariant_parts:
  "invariant (s, h) \<longleftrightarrow> nodesOk (s, h) \<and> cursorOk (s, h) \<and> startTimeRef s \<le> currentTime h"
  by (auto simp add: invariant_def nodesOk_def cursorOk_def)

text \<open>What the effects leave alone.\<close>

lemma updSource_simps [simp]:
  "length (sources (updSource p f h)) = length (sources h)"
  "filters (updSource p f h) = filters h"
  "rafQueue (updSource p f h) = rafQueue h"
  "currentTime (updSource p f h) = currentTime h"
  "stopLog (updSource p f h) = stopLog h"
  "nextFrame (updSource p f h) = nextFrame h"
  by (simp_all add: updSource_def)

lemma updFilter_simps [simp]:
  "length (filters (updFilter q f h)) = length (filters h)"
  "sources (updFilter q f h) = sources h"
  "rafQueue (updFilter q f h) = rafQueue h"
  "currentTime (updFilter q f h) = currentTime h"
  "stopLog (updFilter q f h) = stopLog h"
  "nextFrame (updFilter q f h) = nextFrame h"
  by (simp_all add: updFilter_def)

lemma nth_updSource:
  "sources (updSource p f h) ! q
     = (if q = p \<and> p < length (sources h) then f (sources h ! p) else sources h ! q)"
  by (cases "p < length (sources h)") (simp_all add: updSource_def list_update_beyond)


lemma paramEffect_sources:
  "length (sources (paramEffect s h)) = length (sources h)"
  "srcState (sources (paramEffect s h) ! p) = srcState (sources h ! p)"
  "srcOnended (sources (paramEffect s h) ! p) = srcOnended (sources h ! p)"
  "length (filters (paramEffect s h)) = length (filters h)"
  "rafQueue (paramEffect s h) = rafQueue h"
  "currentTime (paramEffect s h) = currentTime h"
  "stopLog (paramEffect s h) = stopLog h"
  "nextFrame (paramEffect s h) = nextFrame h"
  by (simp_all add: paramEffect_def Let_def nth_updSource split: option.splits)

lemma active_cong:
  assumes "length (sources h') = length (sources h)"
    and "\<And>p. srcState (sources h' ! p) = srcState (sources h ! p)"
  shows "active h' = active h"
  unfolding active_def assms(1) by (rule filter_cong) (simp_all add: assms(2))

lemma nodesOk_cong:
  assumes "nodesOk (s, h)"
    and "sourceNode s' = sourceNode s" "filterNode s' = filterNode s" "isPlaying s' = isPlaying s"
    and "length (sources h') = length (sources h)"
    and "\<And>p. srcState (sources h' ! p) = srcState (sources h ! p)"
    and "\<And>p. srcOnended (sources h' ! p) = srcOnended (sources h ! p)"
    and "length (filters h') = length (filters h)"
  shows "nodesOk (s', h')"
proof -
  have a: "active h' = active h" using assms(5,6) by (rule active_cong)
  show ?thesis
    using assms(1) unfolding nodesOk_def prod.case a assms(2-8) .
qed

lemma karaokeEffect_cases:
  obtains (idle) "karaokeEffect (s, h)
                    = (s\<lparr>currentWordIndex := Finite (- 1)\<rparr>, cancelAnimationFrame (animationFrameRef s) h)"
      and "\<not> isPlaying s \<or> audioBuffer s = None \<or> audioContext s = None"
  | (playing) b c where "isPlaying s" "audioBuffer s = Some b" "audioContext s = Some c"
      and "karaokeEffect (s, h) =
            (s\<lparr>animationFrameRef := nextFrame h\<rparr>,
             h\<lparr>rafQueue := filter (\<lambda>(i, cb). i \<noteq> animationFrameRef s) (rafQueue h)
                      @ [(nextFrame h, \<lparr>kWords = split_ws (stripTags (text' s)),
                                        kDuration = div64 (duration b) (Finite (playbackRate s))\<rparr>)],
               nextFrame := Suc (nextFrame h)\<rparr>)"
proof (cases "\<not> isPlaying s \<or> audioBuffer s = None \<or> audioContext s = None")
  case True
  show ?thesis by (rule idle[OF karaokeEffect_idle[OF True] True])
next
  case False
  then obtain b c where p: "isPlaying s" "audioBuffer s = Some b" "audioContext s = Some c"
    by auto
  show ?thesis by (rule playing[OF p karaokeEffect_playing[OF p]])
qed

lemma karaokeEffect_fields:
  assumes "karaokeEffect (s, h) = (s', h')"
  shows "sourceNode s' = sourceNode s \<and> filterNode s' = filterNode s
    \<and> isPlaying s' = isPlaying s \<and> startTimeRef s' = startTimeRef s
    \<and> playbackRate s' = playbackRate s \<and> pitchShift s' = pitchShift s
    \<and> emphasis s' = emphasis s \<and> sources h' = sources h \<and> filters h' = filters h
    \<and> currentTime h' = currentTime h \<and> stopLog h' = stopLog h"
proof (cases rule: karaokeEffect_cases[of s h])
  case idle
  then show ?thesis using assms by (auto simp add: cancelAnimationFrame_def)
next
  case (playing b c)
  then show ?thesis using assms by auto
qed

lemma karaokeEffect_cursorOk:
  assumes "rafQueue h = [] \<or> (\<exists>k. rafQueue h = [(animationFrameRef s, k)])"
  shows "cursorOk (karaokeEffect (s, h))"
  using assms
  by (cases rule: karaokeEffect_cases[of s h]) (auto simp add: cursorOk_def cancelAnimationFrame_def)

lemma commit_invariant:
  assumes nodes: "nodesOk (s1, h1)"
    and cur: "cursorOk (s0, h0)"
    and same: "currentWordIndex s1 = currentWordIndex s0" "animationFrameRef s1 = animationFrameRef s0"
      "rafQueue h1 = rafQueue h0"
    and time: "startTimeRef s1 \<le> currentTime h1"
  shows "invariant (commit s0 (s1, h1))"
proof -
  let ?h = "if paramDeps s1 \<noteq> paramDeps s0 then paramEffect s1 h1 else h1"
  have n: "nodesOk (s1, ?h)"
  proof (cases "paramDeps s1 \<noteq> paramDeps s0")
    case True
    have "nodesOk (s1, paramEffect s1 h1)"
      using nodes by (rule nodesOk_cong) (simp_all add: paramEffect_sources)
    then show ?thesis using True by simp
  next
    case False
    then show ?thesis using nodes by simp
  qed
  have q: "rafQueue ?h = rafQueue h0" and t: "currentTime ?h = currentTime h1"
    using same by (simp_all add: paramEffect_sources)
  show ?thesis
  proof (cases "karaokeDeps s1 \<noteq> karaokeDeps s0")
    case True
    obtain s' h' where k: "karaokeEffect (s1, ?h) = (s', h')" by (cases "karaokeEffect (s1, ?h)")
    note F = karaokeEffect_fields[OF k]
    have "rafQueue ?h = [] \<or> (\<exists>k. rafQueue ?h = [(animationFrameRef s1, k)])"
      using cur same q by (auto simp add: cursorOk_def)
    then have "cursorOk (s', h')" using karaokeEffect_cursorOk[of ?h s1] k by simp
    moreover have "nodesOk (s', h')"
      using n by (rule nodesOk_cong) (simp_all add: F)
    moreover have "startTimeRef s' \<le> currentTime h'" using F time t by simp
    ultimately show ?thesis
      using True k by (simp add: commit_def Let_def invariant_parts)
  next
    case False
    then have "isPlaying s1 = isPlaying s0" by (simp add: karaokeDeps_def)
    then have "cursorOk (s1, ?h)" using cur same q by (simp add: cursorOk_def)
    then show ?thesis
      using False n time t by (simp add: commit_def Let_def invariant_parts)
  qed
qed

lemma stop_fields [simp]:
  "length (sources (fst (stop p h))) = length (sources h)"
  "filters (fst (stop p h)) = filters h"
  "rafQueue (fst (stop p h)) = rafQueue h"
  "currentTime (fst (stop p h)) = currentTime h"
  "nextFrame (fst (stop p h)) = nextFrame h"
  "stopLog (fst (stop p h)) = stopLog h @ [p]"
  by (simp_all add: stop_def Let_def)

lemma stop_nth:
  "sources (fst (stop p h)) ! q =
     (if q = p \<and> p < length (sources h) \<and> srcState (sources h ! p) = Playing
      then (sources h ! p)\<lparr>srcState := Stopped\<rparr> else sources h ! q)"
  by (auto simp add: stop_def Let_def nth_updSource)

lemma stopped_fields [simp]:
  "length (sources (stopped s h)) = length (sources h)"
  "filters (stopped s h) = filters h"
  "rafQueue (stopped s h) = rafQueue h"
  "currentTime (stopped s h) = currentTime h"
  "nextFrame (stopped s h) = nextFrame h"
  "stopLog (stopped s h) = stopLog h @ (case sourceNode s of None \<Rightarrow> [] | Some p \<Rightarrow> [p])"
  by (simp_all add: stopped_def try_catch_def split: option.splits)

lemma stopped_nth:
  "sources (stopped s h) ! q =
     (if sourceNode s = Some q \<and> q < length (sources h) \<and> srcState (sources h ! q) = Playing
      then (sources h ! q)\<lparr>srcState := Stopped\<rparr> else sources h ! q)"
  by (auto simp add: stopped_def try_catch_def stop_nth split: option.splits)

lemma playAudio_eq:
  "playNow (Some b) (Some c) (s, h) =
     (let h1 = stopped s h;
          f = (case filterNode s of Some f \<Rightarrow> f | None \<Rightarrow> length (filters h));
          h2 = (case filterNode s of Some f \<Rightarrow> h1
                | None \<Rightarrow> h1\<lparr>filters := filters h1 @ [peaking]\<rparr>)
      in (s\<lparr>filterNode := Some f, startTimeRef := currentTime h,
            sourceNode := Some (length (sources h)), isPlaying := True\<rparr>,
          h2\<lparr>sources := sources h2 @
               [\<lparr>srcBuffer = Some b, srcRate = playbackRate s, srcDetune = pitchShift s,
                 srcDest = Some f, srcOnended = True, srcState = Playing\<rparr>]\<rparr>))"
proof (cases "filterNode s")
  case None
  then show ?thesis
    by (simp add: playNow_def playAudio_def stopped_def[symmetric] Let_def createBiquadFilter_def
        createBufferSource_def updFilter_def updSource_def start_def peaking_def)
next
  case (Some f)
  then show ?thesis
    by (simp add: playNow_def playAudio_def stopped_def[symmetric] Let_def
        createBufferSource_def updSource_def start_def)
qed

lemma commit_id: "commit s (s, h) = (s, h)"
  by (simp add: commit_def)

lemma playAudio_fst:
  "fst (playNow (Some b) (Some c) (s, h)) =
     s\<lparr>filterNode := Some (case filterNode s of Some f \<Rightarrow> f | None \<Rightarrow> length (filters h)),
       startTimeRef := currentTime h, sourceNode := Some (length (sources h)), isPlaying := True\<rparr>"
  by (simp add: playAudio_eq Let_def)

lemma playAudio_snd:
  "sources (snd (playNow (Some b) (Some c) (s, h))) = sources (stopped s h) @ [newSource b s h]"
  "filters (snd (playNow (Some b) (Some c) (s, h)))
     = (case filterNode s of Some f \<Rightarrow> filters h | None \<Rightarrow> filters h @ [peaking])"
  "rafQueue (snd (playNow (Some b) (Some c) (s, h))) = rafQueue h"
  "currentTime (snd (playNow (Some b) (Some c) (s, h))) = currentTime h"
  "nextFrame (snd (playNow (Some b) (Some c) (s, h))) = nextFrame h"
  "stopLog (snd (playNow (Some b) (Some c) (s, h)))
     = stopLog h @ (case sourceNode s of None \<Rightarrow> [] | Some p \<Rightarrow> [p])"
  by (cases "filterNode s"; simp add: playAudio_eq Let_def newSource_def)+

subsection \<open>The invariant holds in every reachable state\<close>

lemma nodesOkD:
  assumes "nodesOk (s, h)"
  shows "p < length (sources h) \<Longrightarrow> srcState (sources h ! p) = Playing \<Longrightarrow> sourceNode s = Some p"
    and "sourceNode s = Some p \<Longrightarrow>
           p < length (sources h) \<and> srcState (sources h ! p) \<noteq> Unstarted
           \<and> srcOnended (sources h ! p)"
    and "filterNode s = Some f \<Longrightarrow> f < length (filters h)"
    and "isPlaying s \<Longrightarrow> active h \<noteq> []"
  using assms unfolding nodesOk_def prod.case by blast+

lemma nodesOkI:
  assumes "\<And>p. p < length (sources h) \<Longrightarrow> srcState (sources h ! p) = Playing \<Longrightarrow> sourceNode s = Some p"
    and "\<And>p. sourceNode s = Some p \<Longrightarrow>
           p < length (sources h) \<and> srcState (sources h ! p) \<noteq> Unstarted
           \<and> srcOnended (sources h ! p)"
    and "\<And>f. filterNode s = Some f \<Longrightarrow> f < length (filters h)"
    and "isPlaying s \<Longrightarrow> active h \<noteq> []"
  shows "nodesOk (s, h)"
  unfolding nodesOk_def prod.case using assms by blast

lemma playAudio_app:
  assumes r: "playNow (Some b) (Some c) (s, h) = (s1, h1)"
  shows "sourceNode s1 = Some (length (sources h))" "isPlaying s1"
    "filterNode s1 = Some (case filterNode s of Some f \<Rightarrow> f | None \<Rightarrow> length (filters h))"
    "currentWordIndex s1 = currentWordIndex s" "animationFrameRef s1 = animationFrameRef s"
    "startTimeRef s1 = currentTime h"
proof -
  have "s1 = fst (playNow (Some b) (Some c) (s, h))" using r by simp
  then have e: "s1 = s\<lparr>filterNode := Some (case filterNode s of Some f \<Rightarrow> f | None \<Rightarrow> length (filters h)),
       startTimeRef := currentTime h, sourceNode := Some (length (sources h)), isPlaying := True\<rparr>"
    by (simp only: playAudio_fst)
  show "sourceNode s1 = Some (length (sources h))" "isPlaying s1"
    "filterNode s1 = Some (case filterNode s of Some f \<Rightarrow> f | None \<Rightarrow> length (filters h))"
    "currentWordIndex s1 = currentWordIndex s" "animationFrameRef s1 = animationFrameRef s"
    "startTimeRef s1 = currentTime h"
    unfolding e by simp_all
qed

lemma playAudio_host:
  assumes r: "playNow (Some b) (Some c) (s, h) = (s1, h1)"
  shows "sources h1 = sources (stopped s h) @ [newSource b s h]"
    "filters h1 = (case filterNode s of Some f \<Rightarrow> filters h | None \<Rightarrow> filters h @ [peaking])"
    "rafQueue h1 = rafQueue h" "currentTime h1 = currentTime h" "nextFrame h1 = nextFrame h"
    "stopLog h1 = stopLog h @ (case sourceNode s of None \<Rightarrow> [] | Some p \<Rightarrow> [p])"
proof -
  have e: "h1 = snd (playNow (Some b) (Some c) (s, h))" using r by simp
  show "sources h1 = sources (stopped s h) @ [newSource b s h]"
    "filters h1 = (case filterNode s of Some f \<Rightarrow> filters h | None \<Rightarrow> filters h @ [peaking])"
    "rafQueue h1 = rafQueue h" "currentTime h1 = currentTime h" "nextFrame h1 = nextFrame h"
    "stopLog h1 = stopLog h @ (case sourceNode s of None \<Rightarrow> [] | Some p \<Rightarrow> [p])"
    unfolding e by (rule playAudio_snd)+
qed

lemma stopped_not_playing:
  assumes "nodesOk (s, h)" and "p < length (sources h)"
  shows "srcState (sources (stopped s h) ! p) \<noteq> Playing"
proof (cases "srcState (sources h ! p) = Playing")
  case True
  then have "sourceNode s = Some p" using nodesOkD(1)[OF assms] by blast
  then show ?thesis using True assms(2) by (simp add: stopped_nth)
next
  case False
  then show ?thesis by (simp add: stopped_nth)
qed

lemma playAudio_nodesOk:
  assumes "nodesOk (s, h)"
  shows "nodesOk (playNow (Some b) (Some c) (s, h))"
proof -
  let ?n = "length (sources h)"
  obtain s1 h1 where r: "playNow (Some b) (Some c) (s, h) = (s1, h1)"
    by (cases "playNow (Some b) (Some c) (s, h)")
  note A = playAudio_app[OF r] and H = playAudio_host[OF r]
  have len: "length (sources h1) = Suc ?n" by (simp add: H(1))
  have new: "sources h1 ! ?n = newSource b s h" by (simp add: H(1) nth_append)
  have old: "srcState (sources h1 ! p) \<noteq> Playing" if "p < ?n" for p
  proof -
    have "sources h1 ! p = sources (stopped s h) ! p" using that by (simp add: H(1) nth_append)
    then show ?thesis using stopped_not_playing[OF assms that] by simp
  qed
  have "nodesOk (s1, h1)"
  proof (rule nodesOkI)
    fix p assume "p < length (sources h1)" "srcState (sources h1 ! p) = Playing"
    then have "p = ?n" using old[of p] len by (cases "p < ?n") auto
    then show "sourceNode s1 = Some p" using A(1) by simp
  next
    fix p assume "sourceNode s1 = Some p"
    then have "p = ?n" using A(1) by simp
    then show "p < length (sources h1) \<and> srcState (sources h1 ! p) \<noteq> Unstarted
                 \<and> srcOnended (sources h1 ! p)"
      using len new by (simp add: newSource_def)
  next
    fix f assume f: "filterNode s1 = Some f"
    show "f < length (filters h1)"
    proof (cases "filterNode s")
      case None
      then show ?thesis using f A(3) H(2) by simp
    next
      case (Some g)
      then have "g < length (filters h)" using nodesOkD(3)[OF assms] by simp
      then show ?thesis using f A(3) H(2) Some by simp
    qed
  next
    have "?n \<in> set (active h1)"
      unfolding active_iff using len new by (simp add: newSource_def)
    then show "active h1 \<noteq> []" by auto
  qed
  then show ?thesis by (simp add: r)
qed

lemma playAudio_None: "b = None \<or> c = None \<Longrightarrow> playNow b c (s, h) = (s, h)"
  by (cases b; cases c) (simp_all add: playNow_def playAudio_def)

lemma invariant_playAudio:
  assumes "invariant (s, h)"
  shows "invariant (dispatch (playNow b c) (s, h))"
proof (cases "b = None \<or> c = None")
  case True
  then show ?thesis using assms by (simp add: dispatch_def playAudio_None commit_id)
next
  case False
  then obtain b' c' where bc: "b = Some b'" "c = Some c'" by auto
  obtain s1 h1 where r: "playNow (Some b') (Some c') (s, h) = (s1, h1)"
    by (cases "playNow (Some b') (Some c') (s, h)")
  note A = playAudio_app[OF r] and H = playAudio_host[OF r]
  have I: "nodesOk (s, h)" "cursorOk (s, h)" using assms by (simp_all add: invariant_parts)
  have n: "nodesOk (s1, h1)" using playAudio_nodesOk[OF I(1), of b' c'] r by simp
  have "invariant (commit s (s1, h1))"
    using n I(2) by (rule commit_invariant) (simp_all add: A H)
  then show ?thesis by (simp add: dispatch_def bc r)
qed

lemma invariant_setter:
  assumes "invariant (s, h)"
    and "sourceNode s1 = sourceNode s" "filterNode s1 = filterNode s" "isPlaying s1 = isPlaying s"
    and "currentWordIndex s1 = currentWordIndex s" "animationFrameRef s1 = animationFrameRef s"
    and "startTimeRef s1 = startTimeRef s"
  shows "invariant (commit s (s1, h))"
proof -
  have I: "nodesOk (s, h)" "cursorOk (s, h)" "startTimeRef s \<le> currentTime h"
    using assms(1) by (simp_all add: invariant_parts)
  have "nodesOk (s1, h)" using I(1) by (rule nodesOk_cong) (simp_all add: assms)
  then show ?thesis using I(2) by (rule commit_invariant) (simp_all add: assms I(3))
qed

lemma invariant_setters:
  assumes "invariant (s, h)"
  shows "invariant (dispatch (setPlaybackRate v) (s, h))"
    and "invariant (dispatch (setPitchShift v) (s, h))"
    and "invariant (dispatch (setEmphasis v) (s, h))"
    and "invariant (dispatch (setText t) (s, h))"
    and "invariant (dispatch (setAudioBuffer b) (s, h))"
    and "invariant (dispatch (setAudioContext c) (s, h))"
  unfolding dispatch_def setPlaybackRate_def setPitchShift_def setEmphasis_def setText_def
    setAudioBuffer_def setAudioContext_def prod.case
  by (rule invariant_setter[OF assms]; simp)+

lemma invariant_handleStop:
  assumes "invariant (s, h)"
  shows "invariant (dispatch handleStop (s, h))"
proof (cases "sourceNode s")
  case None
  then show ?thesis using assms by (simp add: dispatch_def handleStop_def commit_id)
next
  case (Some p)
  have I: "nodesOk (s, h)" "cursorOk (s, h)" "startTimeRef s \<le> currentTime h"
    using assms by (simp_all add: invariant_parts)
  let ?s = "s\<lparr>isPlaying := False\<rparr>" and ?h = "fst (stop p h)"
  have "nodesOk (?s, ?h)"
  proof (rule nodesOkI)
    fix q assume "q < length (sources ?h)" "srcState (sources ?h ! q) = Playing"
    then have "q < length (sources h) \<and> srcState (sources h ! q) = Playing"
      by (auto simp add: stop_nth split: if_splits)
    then show "sourceNode ?s = Some q" using nodesOkD(1)[OF I(1)] by simp
  next
    fix q assume "sourceNode ?s = Some q"
    then have "sourceNode s = Some q" by simp
    then have "q < length (sources h) \<and> srcState (sources h ! q) \<noteq> Unstarted
                 \<and> srcOnended (sources h ! q)"
      using nodesOkD(2)[OF I(1)] by blast
    then show "q < length (sources ?h) \<and> srcState (sources ?h ! q) \<noteq> Unstarted
                 \<and> srcOnended (sources ?h ! q)"
      by (auto simp add: stop_nth)
  next
    fix f assume "filterNode ?s = Some f"
    then show "f < length (filters ?h)" using nodesOkD(3)[OF I(1), of f] by simp
  next
    assume "isPlaying ?s"
    then show "active ?h \<noteq> []" by simp
  qed
  then have "invariant (commit s (?s, ?h))"
    using I(2) by (rule commit_invariant) (simp_all add: I(3))
  then show ?thesis by (simp add: dispatch_def handleStop_def Some try_catch_def)
qed

lemma invariant_ended:
  assumes "invariant (s, h)"
  shows "invariant (dispatch (ended p) (s, h))"
proof (cases "p < length (sources h) \<and> srcState (sources h ! p) \<in> {Playing, Stopped}")
  case False
  then have "ended p (s, h) = (s, h)" unfolding ended_def prod.case by (simp only: if_False)
  then show ?thesis using assms by (simp add: dispatch_def commit_id)
next
  case True
  have I: "nodesOk (s, h)" "cursorOk (s, h)" "startTimeRef s \<le> currentTime h"
    using assms by (simp_all add: invariant_parts)
  let ?s = "if srcOnended (sources h ! p) then s\<lparr>isPlaying := False\<rparr> else s"
  let ?h = "updSource p (\<lambda>n. n\<lparr>srcState := Ended\<rparr>) h"
  have e: "ended p (s, h) = (?s, ?h)" using True by (simp add: ended_def)
  have sn: "sourceNode ?s = sourceNode s" "filterNode ?s = filterNode s" by simp_all
  have "nodesOk (?s, ?h)"
  proof (rule nodesOkI)
    fix q assume "q < length (sources ?h)" "srcState (sources ?h ! q) = Playing"
    then have "q < length (sources h) \<and> srcState (sources h ! q) = Playing"
      by (auto simp add: nth_updSource split: if_splits)
    then show "sourceNode ?s = Some q" using nodesOkD(1)[OF I(1)] sn by simp
  next
    fix q assume "sourceNode ?s = Some q"
    then have "sourceNode s = Some q" using sn by simp
    then have "q < length (sources h) \<and> srcState (sources h ! q) \<noteq> Unstarted
                 \<and> srcOnended (sources h ! q)"
      using nodesOkD(2)[OF I(1)] by blast
    then show "q < length (sources ?h) \<and> srcState (sources ?h ! q) \<noteq> Unstarted
                 \<and> srcOnended (sources ?h ! q)"
      by (auto simp add: nth_updSource)
  next
    fix f assume "filterNode ?s = Some f"
    then show "f < length (filters ?h)" using nodesOkD(3)[OF I(1), of f] sn by simp
  next
    assume pl: "isPlaying ?s"
    then have no: "\<not> srcOnended (sources h ! p)" and "isPlaying s" by (auto split: if_splits)
    then have "active h \<noteq> []" using nodesOkD(4)[OF I(1)] by simp
    then obtain q where q: "q \<in> set (active h)" by (cases "active h") auto
    then have q': "q < length (sources h)" "srcState (sources h ! q) = Playing"
      by (simp_all add: active_iff)
    then have "sourceNode s = Some q" using nodesOkD(1)[OF I(1)] by simp
    then have "srcOnended (sources h ! q)" using nodesOkD(2)[OF I(1)] by blast
    then have "q \<noteq> p" using no by auto
    then have "q \<in> set (active ?h)" using q' by (simp add: active_iff nth_updSource)
    then show "active ?h \<noteq> []" by auto
  qed
  then have "invariant (commit s (?s, ?h))"
    using I(2) by (rule commit_invariant) (simp_all add: I(3))
  then show ?thesis by (simp add: dispatch_def e)
qed

lemma invariant_advance:
  assumes "invariant (s, h)" and "0 \<le> dt"
  shows "invariant (advance dt (s, h))"
proof -
  have I: "nodesOk (s, h)" "cursorOk (s, h)" "startTimeRef s \<le> currentTime h"
    using assms by (simp_all add: invariant_parts)
  let ?h = "h\<lparr>currentTime := currentTime h + dt\<rparr>"
  have "nodesOk (s, ?h)" using I(1) by (rule nodesOk_cong) simp_all
  moreover have "cursorOk (s, ?h)" using I(2) by (simp add: cursorOk_def)
  ultimately show ?thesis using I(3) assms(2) by (simp add: advance_def invariant_parts)
qed

lemma invariant_animationFrame:
  assumes "invariant (s, h)"
  shows "invariant (animationFrame (s, h))"
proof (cases "rafQueue h = []")
  case True
  then have "animationFrame (s, h) = (s, h)" by (simp add: animationFrame_def)
  then show ?thesis using assms by simp
next
  case False
  have I: "nodesOk (s, h)" "cursorOk (s, h)" "startTimeRef s \<le> currentTime h"
    using assms by (simp_all add: invariant_parts)
  from False I(2) obtain k where q: "rafQueue h = [(animationFrameRef s, k)]" and pl: "isPlaying s"
    by (auto simp add: cursorOk_def)
  obtain s1 h1 where u: "updateKaraoke k (s, h\<lparr>rafQueue := []\<rparr>) = (s1, h1)"
    by (cases "updateKaraoke k (s, h\<lparr>rafQueue := []\<rparr>)")
  have a: "animationFrame (s, h) = (s1, h1)" by (simp add: animationFrame_def q u)
  have same: "sameButCursor (s, h\<lparr>rafQueue := []\<rparr>) (s1, h1)"
    using updateKaraoke_same[of s "h\<lparr>rafQueue := []\<rparr>" k] u by simp
  have "nodesOk (s1, h1)"
    using I(1) by (rule nodesOk_cong) (use same in \<open>simp_all add: sameButCursor_def\<close>)
  moreover have "cursorOk (s1, h1)"
    using u pl by (auto simp add: updateKaraoke_eq cursorOk_def split: if_splits)
  moreover have "startTimeRef s1 \<le> currentTime h1"
    using same I(3) by (simp add: sameButCursor_def)
  ultimately show ?thesis by (simp add: a invariant_parts)
qed

lemma invariant_initial: "invariant (initialApp, initialHost)"
  by (simp add: invariant_def initialApp_def initialHost_def active_def)

lemma invariant_fire:
  assumes "invariant x" and "admissible e"
  shows "invariant (fire e x)"
proof -
  obtain s h where x: "x = (s, h)" by (cases x)
  show ?thesis
    using assms unfolding x
    by (cases e)
      (simp_all add: invariant_playAudio invariant_handleStop invariant_ended invariant_setters
        invariant_advance invariant_animationFrame)
qed

lemma reachable_invariant: "reachable x \<Longrightarrow> invariant x"
  by (induction rule: reachable.induct) (simp_all add: invariant_initial invariant_fire)

lemma distinct_single:
  assumes "distinct xs" and "\<forall>x \<in> set xs. x = p"
  shows "xs = [] \<or> xs = [p]"
proof (cases xs)
  case Nil
  then show ?thesis by simp
next
  case (Cons a ys)
  then have "ys = []" using assms by (cases ys) auto
  then show ?thesis using Cons assms by simp
qed

lemma active_at_most_one:
  assumes "nodesOk (s, h)"
  shows "active h = [] \<or> (\<exists>p. active h = [p] \<and> sourceNode s = Some p)"
proof (cases "active h = []")
  case True
  then show ?thesis by simp
next
  case False
  then obtain p where p: "p \<in> set (active h)" by (cases "active h") auto
  then have sp: "sourceNode s = Some p"
    using nodesOkD(1)[OF assms] by (simp add: active_iff)
  have "\<forall>q \<in> set (active h). q = p"
    using nodesOkD(1)[OF assms] sp by (auto simp add: active_iff)
  moreover have "distinct (active h)" by (simp add: active_def)
  ultimately have "active h = [] \<or> active h = [p]" by (rule distinct_single[rotated])
  then show ?thesis using False sp by simp
qed

lemma commit_fields:
  assumes "commit prev (s1, h1) = (s2, h2)"
  shows "sourceNode s2 = sourceNode s1 \<and> filterNode s2 = filterNode s1
    \<and> isPlaying s2 = isPlaying s1 \<and> playbackRate s2 = playbackRate s1
    \<and> pitchShift s2 = pitchShift s1 \<and> emphasis s2 = emphasis s1
    \<and> startTimeRef s2 = startTimeRef s1
    \<and> length (sources h2) = length (sources h1) \<and> length (filters h2) = length (filters h1)
    \<and> (\<forall>p. srcState (sources h2 ! p) = srcState (sources h1 ! p))
    \<and> (\<forall>p. srcOnended (sources h2 ! p) = srcOnended (sources h1 ! p))
    \<and> stopLog h2 = stopLog h1 \<and> currentTime h2 = currentTime h1"
proof -
  let ?h = "if paramDeps s1 \<noteq> paramDeps prev then paramEffect s1 h1 else h1"
  have P: "length (sources ?h) = length (sources h1)" "length (filters ?h) = length (filters h1)"
    "\<And>p. srcState (sources ?h ! p) = srcState (sources h1 ! p)"
    "\<And>p. srcOnended (sources ?h ! p) = srcOnended (sources h1 ! p)"
    "stopLog ?h = stopLog h1" "currentTime ?h = currentTime h1"
    by (simp_all add: paramEffect_sources)
  show ?thesis
  proof (cases "karaokeDeps s1 \<noteq> karaokeDeps prev")
    case True
    then have "karaokeEffect (s1, ?h) = (s2, h2)" using assms by (simp add: commit_def Let_def)
    from karaokeEffect_fields[OF this] show ?thesis using P by simp
  next
    case False
    then have "s2 = s1" "h2 = ?h" using assms by (auto simp add: commit_def Let_def)
    then show ?thesis using P by simp
  qed
qed

lemma dispatch_playAudio_facts:
  assumes ok: "nodesOk (s, h)"
    and d: "dispatch (playNow (Some b) (Some c)) (s, h) = (s2, h2)"
  shows "sourceNode s2 = Some (length (sources h))"
    and "active h2 = [length (sources h)]"
    and "stopLog h2 = stopLog h @ (case sourceNode s of None \<Rightarrow> [] | Some p \<Rightarrow> [p])"
    and "\<And>p. active h = [p] \<Longrightarrow> srcState (sources h2 ! p) = Stopped"
    and "nodesOk (s2, h2)"
proof -
  obtain s1 h1 where r: "playNow (Some b) (Some c) (s, h) = (s1, h1)"
    by (cases "playNow (Some b) (Some c) (s, h)")
  note A = playAudio_app[OF r] and H = playAudio_host[OF r]
  have c: "commit s (s1, h1) = (s2, h2)" using d r by (simp add: dispatch_def)
  note F = commit_fields[OF c]
  have ok1: "nodesOk (s1, h1)" using playAudio_nodesOk[OF ok, of b c] r by simp
  show ok2: "nodesOk (s2, h2)" using ok1 by (rule nodesOk_cong) (simp_all add: F)
  show sn: "sourceNode s2 = Some (length (sources h))" using F A(1) by simp
  have "isPlaying s2" using F A(2) by simp
  then have "active h2 \<noteq> []" using nodesOkD(4)[OF ok2] by simp
  then show "active h2 = [length (sources h)]"
    using active_at_most_one[OF ok2] sn by auto
  show "stopLog h2 = stopLog h @ (case sourceNode s of None \<Rightarrow> [] | Some p \<Rightarrow> [p])"
    using F H(6) by simp
  show "srcState (sources h2 ! p) = Stopped" if "active h = [p]" for p
  proof -
    have "p \<in> set (active h)" using that by simp
    then have p: "p < length (sources h)" "srcState (sources h ! p) = Playing"
      by (simp_all add: active_iff)
    then have "sourceNode s = Some p" using nodesOkD(1)[OF ok] by simp
    then have "srcState (sources (stopped s h) ! p) = Stopped" using p by (simp add: stopped_nth)
    moreover have "sources h1 ! p = sources (stopped s h) ! p"
      using p(1) by (simp add: H(1) nth_append)
    ultimately show ?thesis using F by simp
  qed
qed

lemma updSource_id:
  "(\<And>n. f n = n) \<Longrightarrow> updSource p f h = h"
  by (simp add: updSource_def)

lemma stop_not_playing:
  assumes "p < length (sources h) \<longrightarrow> srcState (sources h ! p) \<noteq> Playing"
  shows "fst (stop p h) = h\<lparr>stopLog := stopLog h @ [p]\<rparr>"
proof (cases "p < length (sources h) \<and> srcState (sources h ! p) \<noteq> Unstarted")
  case False
  then show ?thesis unfolding stop_def Let_def by (simp only: if_False fst_conv)
next
  case True
  let ?h = "h\<lparr>stopLog := stopLog h @ [p]\<rparr>"
  have "(sources ?h)[p := (if srcState (sources ?h ! p) = Playing
                           then (sources ?h ! p)\<lparr>srcState := Stopped\<rparr> else sources ?h ! p)]
        = sources ?h"
    using assms True by simp
  then have "updSource p (\<lambda>n. if srcState n = Playing then n\<lparr>srcState := Stopped\<rparr> else n) ?h = ?h"
    by (simp add: updSource_def)
  then show ?thesis using True by (simp add: stop_def Let_def)
qed

lemma isPlaying_False_id: "\<not> isPlaying s \<Longrightarrow> s\<lparr>isPlaying := False\<rparr> = s"
  by (cases s) simp

lemma dispatch_handleStop_idle:
  assumes "\<not> isPlaying s" and "sourceNode s = Some p"
  shows "dispatch handleStop (s, h) = (s, fst (stop p h))"
  using assms by (simp add: dispatch_def handleStop_def try_catch_def isPlaying_False_id commit_id)

lemma fl_numeral: "(numeral w :: int) < 2 ^ 53 \<Longrightarrow> fl (numeral w) = numeral w"
  using fl_of_int[of "numeral w"] by simp

lemma fl_quarters: "(numeral w :: int) < 2 ^ 53 \<Longrightarrow> fl (numeral w / 4) = numeral w / 4"
  using fl_exact[of "numeral w" "- 2"] by (simp add: power_int_minus_divide)

lemma fl_half: "fl (1 / 2) = 1 / 2"
  using fl_exact[of 1 "- 1"] by (simp add: power_int_minus_divide)


lemma round64_numeral:
  "(numeral w :: int) < 2 ^ 53 \<Longrightarrow> round64 (numeral w) = Finite (numeral w)"
  using round64_of_nat[of "numeral w"] by (simp add: of_nat_less_numeral_power_cancel_iff)

lemma round64_1 [simp]: "round64 1 = Finite 1"
  using round64_of_nat[of 1] by simp

lemma duration_demoBuffer: "duration demoBuffer = Finite 4"
  by (simp add: duration_def demoBuffer_def div64_nonneg round64_numeral)

lemma duration_shortBuffer: "duration shortBuffer = Finite 1"
  by (simp add: duration_def shortBuffer_def div64_nonneg)

lemma fl_two_thirds: "fl (2 / 3) = 6004799503160661 / 9007199254740992"
  using fl_eq[of "2 / 3" "- 1"]
  by (simp add: roundTiesToEven_def Let_def power_int_minus_divide floor_rat_numeral_div)

lemma fl_double_two_thirds:
  "fl (6004799503160661 / 9007199254740992) = 6004799503160661 / 9007199254740992"
  using fl_exact[of 6004799503160661 "- 53"] by (simp add: power_int_minus_divide)

lemma div64_Finite_bound:
  assumes "div64 a b = Finite D"
  shows "\<bar>D\<bar> < 2 ^ 1024"
  using assms
  by (auto simp add: div64_def zero64_def inf64_def round64_def Let_def split: if_splits)

lemma fl_between:
  assumes "- 1074 \<le> a" and "2 powi a \<le> x" and "x \<le> 2 powi b" and "- 1074 \<le> b"
  shows "2 powi a \<le> fl x \<and> fl x \<le> 2 powi b"
proof -
  have "fl (2 powi a) = 2 powi a" using fl_exact[of 1 a] assms(1) by simp
  moreover have "fl (2 powi b) = 2 powi b" using fl_exact[of 1 b] assms(4) by simp
  ultimately show ?thesis using fl_mono[OF assms(2)] fl_mono[OF assms(3)] by simp
qed

lemma round64_between:
  assumes "- 1074 \<le> a" and "2 powi a \<le> x" and "x \<le> 2 powi b" and "b < 1024" and "a \<le> b"
  shows "round64 x = Finite (fl x) \<and> 2 powi a \<le> fl x \<and> fl x \<le> 2 powi b"
proof -
  have b: "- 1074 \<le> b" using assms(1,5) by simp
  note B = fl_between[OF assms(1,2,3) b]
  have "(2::rat) powi b < 2 powi 1024" using assms(4) by (intro power_int_strict_increasing) simp_all
  then have "fl x < 2 ^ 1024" using B by simp
  moreover have "0 \<le> x" using assms(2) powi_pos[of a] by linarith
  ultimately show ?thesis using B by (simp add: round64_nonneg)
qed

lemma duration_finite:
  assumes "0 < length_buf b" and "length_buf b < 2 ^ 32"
    and "0 < sampleRate b" and "sampleRate b < 2 ^ 32"
    and "1 / 2 \<le> rate" and "rate \<le> 3 / 2"
  shows "\<exists>d D. duration b = Finite d \<and> 0 < d
             \<and> div64 (duration b) (Finite rate) = Finite D \<and> 0 < D"
proof -
  define x :: rat where "x = of_nat (length_buf b) / of_nat (sampleRate b)"
  have l: "(1 :: rat) \<le> of_nat (length_buf b)" "(of_nat (length_buf b) :: rat) \<le> 2 ^ 32"
    using assms(1,2) by (simp_all add: Suc_le_eq of_nat_less_numeral_power_cancel_iff less_imp_le)
  have r: "(1 :: rat) \<le> of_nat (sampleRate b)" "(of_nat (sampleRate b) :: rat) \<le> 2 ^ 32"
    using assms(3,4) by (simp_all add: Suc_le_eq of_nat_less_numeral_power_cancel_iff less_imp_le)
  have "1 / 2 ^ 32 \<le> 1 / (of_nat (sampleRate b) :: rat)" using r by (simp add: frac_le)
  also have "\<dots> \<le> x" unfolding x_def using l(1) r(1) by (simp add: divide_right_mono)
  finally have lo: "2 powi (- 32) \<le> x" by (simp add: power_int_minus_divide)
  have "x \<le> of_nat (length_buf b) / 1" unfolding x_def using r(1) l(1) by (intro frac_le) simp_all
  then have hi: "x \<le> 2 powi 32" using l(2) by simp
  note X = round64_between[OF _ lo hi, simplified]
  have d: "duration b = Finite (fl x)"
    using X by (simp add: duration_def div64_nonneg x_def assms(3))
  have dpos: "0 < fl x" using X powi_pos[of "- 32"] by (simp add: power_int_minus_divide)
  define y where "y = fl x / rate"
  have rp: "0 < rate" using assms(5) by simp
  have "2 powi (- 33) = (1 / 2 ^ 32) / (2 :: rat)" by (simp add: power_int_minus_divide)
  also have "\<dots> \<le> fl x / 2" using X by (simp add: power_int_minus_divide)
  also have "\<dots> \<le> y" unfolding y_def using dpos assms(6) rp by (intro divide_left_mono) simp_all
  finally have lo2: "2 powi (- 33) \<le> y" .
  have "y \<le> fl x / (1 / 2)" unfolding y_def using dpos assms(5) by (intro divide_left_mono) simp_all
  also have "\<dots> \<le> 2 powi 33" using X by simp
  finally have hi2: "y \<le> 2 powi 33" .
  note Y = round64_between[OF _ lo2 hi2, simplified]
  have "div64 (duration b) (Finite rate) = Finite (fl y)"
    unfolding d y_def[symmetric] using Y dpos rp by (simp add: div64_nonneg y_def)
  moreover have "0 < fl y" using Y powi_pos[of "- 33"] by (simp add: power_int_minus_divide)
  ultimately show ?thesis using d dpos by simp
qed

lemma div64_by_1: "div64 (Finite 4) (Finite 1) = Finite 4"
  by (simp add: div64_nonneg round64_numeral)

lemma stripTags_plain: "60 \<notin> set cs \<Longrightarrow> stripTags cs = cs"
  by (induction cs) simp_all

lemma words_demo: "split_ws (stripTags (str ''A B C D'')) = [str ''A'', str ''B'', str ''C'', str ''D'']"
  by (simp add: stripTags_plain str_def split_ws_def isWhiteSpace_def)

lemma demoPlaying_eq: "dispatch (playNow (Some demoBuffer) (Some 0)) demoReady = demoPlaying"
  by (simp add: demoReady_def demoPlaying_def dispatch_def playAudio_eq Let_def stopped_def
      initialApp_def initialHost_def commit_def paramDeps_def karaokeDeps_def paramEffect_def
      updSource_def updFilter_def peaking_def karaokeEffect_playing words_demo
      duration_demoBuffer demoClosure_def div64_by_1)



lemma cancel_empty: "rafQueue h = [] \<Longrightarrow> cancelAnimationFrame i h = h"
  by (cases h) (simp add: cancelAnimationFrame_def)

lemma cursor_id: "currentWordIndex s = Finite (- 1) \<Longrightarrow> s\<lparr>currentWordIndex := Finite (- 1)\<rparr> = s"
  by (cases s) simp

lemma commit_idle:
  assumes "\<not> isPlaying s1" and "currentWordIndex s1 = Finite (- 1)" and "rafQueue h1 = []"
  shows "commit prev (s1, h1) = (s1, if paramDeps s1 \<noteq> paramDeps prev then paramEffect s1 h1 else h1)"
proof -
  let ?h = "if paramDeps s1 \<noteq> paramDeps prev then paramEffect s1 h1 else h1"
  have q: "rafQueue ?h = []" using assms(3) by (simp add: paramEffect_sources)
  have "karaokeEffect (s1, ?h) = (s1, ?h)"
    using assms(1,2) q by (simp add: karaokeEffect_idle cancel_empty cursor_id)
  then show ?thesis by (simp add: commit_def Let_def)
qed



subsection \<open>The worked playback\<close>

lemma setter_idle:
  assumes "\<not> isPlaying s" and "currentWordIndex s = Finite (- 1)" and "rafQueue h = []"
    and "sourceNode s = None" and "filterNode s = None"
  shows "dispatch (setText t) (s, h) = (s\<lparr>text' := t\<rparr>, h)"
    and "dispatch (setAudioContext c) (s, h) = (s\<lparr>audioContext := c\<rparr>, h)"
    and "dispatch (setAudioBuffer b) (s, h) = (s\<lparr>audioBuffer := b\<rparr>, h)"
  using assms
  by (simp_all add: dispatch_def setText_def setAudioContext_def setAudioBuffer_def commit_idle
      paramEffect_def)

lemma reachable_demoReady: "reachable demoReady"
proof -
  let ?s1 = "initialApp\<lparr>text' := str ''A B C D''\<rparr>"
  let ?s2 = "?s1\<lparr>audioContext := Some 0\<rparr>"
  let ?s3 = "?s2\<lparr>audioBuffer := Some demoBuffer\<rparr>"
  have 1: "fire (SetText (str ''A B C D'')) (initialApp, initialHost) = (?s1, initialHost)"
    by (simp add: setter_idle initialApp_def initialHost_def)
  have 2: "fire (SetAudioContext (Some 0)) (?s1, initialHost) = (?s2, initialHost)"
    by (simp add: setter_idle initialApp_def initialHost_def)
  have 3: "fire (SetAudioBuffer (Some demoBuffer)) (?s2, initialHost) = (?s3, initialHost)"
    by (simp add: setter_idle initialApp_def initialHost_def)
  have "reachable (?s1, initialHost)"
    using reachable.step[OF reachable.init, of "SetText (str ''A B C D'')"] 1 by simp
  then have "reachable (?s2, initialHost)"
    using reachable.step[of "(?s1, initialHost)" "SetAudioContext (Some 0)"] 2 by simp
  then have "reachable (?s3, initialHost)"
    using reachable.step[of "(?s2, initialHost)" "SetAudioBuffer (Some demoBuffer)"] 3 by simp
  then show ?thesis by (simp add: demoReady_def)
qed

lemma reachable_demoPlaying: "reachable demoPlaying"
  using reachable.step[OF reachable_demoReady, of "PlayAudio (Some demoBuffer) (Some 0)"]
  by (simp add: demoPlaying_eq)

lemma demoEnded_eq:
  "demoEnded =
     ((fst demoPlaying)\<lparr>isPlaying := False, currentWordIndex := Finite (- 1)\<rparr>,
      (snd demoPlaying)\<lparr>sources := [\<lparr>srcBuffer = Some demoBuffer, srcRate = 1, srcDetune = 0,
                                        srcDest = Some 0, srcOnended = True, srcState = Ended\<rparr>],
                           rafQueue := []\<rparr>)"
  by (simp add: demoEnded_def demoPlaying_def dispatch_ended cancelAnimationFrame_def updSource_def)


lemma demoPlaying_fields:
  "active (snd demoPlaying) = [0]" "length (sources (snd demoPlaying)) = 1"
  "sourceNode (fst demoPlaying) = Some 0" "isPlaying (fst demoPlaying)"
  "rafQueue (snd demoPlaying) = [(1, demoClosure)]" "stopLog (snd demoPlaying) = []"
  "audioBuffer (fst demoPlaying) = Some demoBuffer" "audioContext (fst demoPlaying) = Some 0"
  "playbackRate (fst demoPlaying) = 1" "text' (fst demoPlaying) = str ''A B C D''"
  "srcState (sources (snd demoPlaying) ! 0) = Playing" "srcOnended (sources (snd demoPlaying) ! 0)"
  "startTimeRef (fst demoPlaying) = 0" "currentTime (snd demoPlaying) = 0"
  by (simp_all add: demoPlaying_def active_def)

lemma demoEnded_fields:
  "active (snd demoEnded) = []" "length (sources (snd demoEnded)) = 1"
  "sourceNode (fst demoEnded) = Some 0" "\<not> isPlaying (fst demoEnded)"
  "srcState (sources (snd demoEnded) ! 0) = Ended" "stopLog (snd demoEnded) = []"
  by (simp_all add: demoEnded_eq demoPlaying_def active_def)

lemma stopLog_demo_stop: "stopLog (snd (dispatch handleStop demoPlaying)) = [0]"
proof -
  have "dispatch handleStop (fst demoPlaying, snd demoPlaying) =
          ((fst demoPlaying)\<lparr>isPlaying := False, currentWordIndex := Finite (- 1)\<rparr>,
           cancelAnimationFrame (animationFrameRef (fst demoPlaying))
             (try_catch (stop 0 (snd demoPlaying))))"
    by (rule dispatch_handleStop) (simp_all add: demoPlaying_fields)
  then show ?thesis
    by (simp add: cancelAnimationFrame_def try_catch_def demoPlaying_fields)
qed


lemma animationFrame_single:
  "rafQueue h = [(i, k)] \<Longrightarrow> animationFrame (s, h) = updateKaraoke k (s, h\<lparr>rafQueue := []\<rparr>)"
  by (simp add: animationFrame_def)




subsection \<open>Sequential runs\<close>

text \<open>
  In the sequential runs at most one source is playing, and it is the one the component
  refers to. From such a state with a playing source \<open>p\<close>, \<^verbatim>\<open>playAudio\<close> called by the
  current render calls \<^verbatim>\<open>stop()\<close> on \<open>p\<close>, which leaves \<open>p\<close> stopped, and the new source is
  the only one playing; after two such calls exactly one source is playing, the second,
  and the first has received a stop call and is stopped.
\<close>

lemma sequential_one_active:
  assumes "reachable (s, h)"
  shows "(active h = [] \<or> (\<exists>p. active h = [p] \<and> sourceNode s = Some p))
    \<and> (\<forall>b c p. active h = [p] \<longrightarrow>
          stopLog (snd (dispatch (playNow (Some b) (Some c)) (s, h))) = stopLog h @ [p]
          \<and> srcState (sources (snd (dispatch (playNow (Some b) (Some c)) (s, h))) ! p) = Stopped
          \<and> active (snd (dispatch (playNow (Some b) (Some c)) (s, h))) = [length (sources h)]
          \<and> sourceNode (fst (dispatch (playNow (Some b) (Some c)) (s, h)))
              = Some (length (sources h)))
    \<and> (\<forall>b1 c1 b2 c2.
          active (snd (dispatch (playNow (Some b1) (Some c1)) (s, h))) = [length (sources h)]
          \<and> active (snd (dispatch (playNow (Some b2) (Some c2))
                             (dispatch (playNow (Some b1) (Some c1)) (s, h))))
              = [Suc (length (sources h))]
          \<and> length (sources h) \<in> set (stopLog (snd (dispatch (playNow (Some b2) (Some c2))
                             (dispatch (playNow (Some b1) (Some c1)) (s, h)))))
          \<and> srcState (sources (snd (dispatch (playNow (Some b2) (Some c2))
                             (dispatch (playNow (Some b1) (Some c1)) (s, h))))
                        ! length (sources h)) = Stopped)"
proof -
  have ok: "nodesOk (s, h)"
    using reachable_invariant[OF assms] by (simp add: invariant_parts)
  have one: "active h = [] \<or> (\<exists>p. active h = [p] \<and> sourceNode s = Some p)"
    using ok by (rule active_at_most_one)
  have replace: "stopLog (snd (dispatch (playNow (Some b) (Some c)) (s, h))) = stopLog h @ [p]
          \<and> srcState (sources (snd (dispatch (playNow (Some b) (Some c)) (s, h))) ! p) = Stopped
          \<and> active (snd (dispatch (playNow (Some b) (Some c)) (s, h))) = [length (sources h)]
          \<and> sourceNode (fst (dispatch (playNow (Some b) (Some c)) (s, h)))
              = Some (length (sources h))"
    if "active h = [p]" for b c p
  proof -
    obtain s2 h2 where d: "dispatch (playNow (Some b) (Some c)) (s, h) = (s2, h2)"
      by (cases "dispatch (playNow (Some b) (Some c)) (s, h)")
    have "sourceNode s = Some p" using one that by auto
    then show ?thesis
      using dispatch_playAudio_facts[OF ok d] that by (simp add: d)
  qed
  have twice: "active (snd (dispatch (playNow (Some b1) (Some c1)) (s, h))) = [length (sources h)]
          \<and> active (snd (dispatch (playNow (Some b2) (Some c2))
                             (dispatch (playNow (Some b1) (Some c1)) (s, h))))
              = [Suc (length (sources h))]
          \<and> length (sources h) \<in> set (stopLog (snd (dispatch (playNow (Some b2) (Some c2))
                             (dispatch (playNow (Some b1) (Some c1)) (s, h)))))
          \<and> srcState (sources (snd (dispatch (playNow (Some b2) (Some c2))
                             (dispatch (playNow (Some b1) (Some c1)) (s, h))))
                        ! length (sources h)) = Stopped"
    for b1 c1 b2 c2
  proof -
    obtain s1 h1 where d1: "dispatch (playNow (Some b1) (Some c1)) (s, h) = (s1, h1)"
      by (cases "dispatch (playNow (Some b1) (Some c1)) (s, h)")
    obtain s2 h2 where d2: "dispatch (playNow (Some b2) (Some c2)) (s1, h1) = (s2, h2)"
      by (cases "dispatch (playNow (Some b2) (Some c2)) (s1, h1)")
    note F1 = dispatch_playAudio_facts[OF ok d1]
    note F2 = dispatch_playAudio_facts[OF F1(5) d2]
    have len: "length (sources h1) = Suc (length (sources h))"
    proof -
      obtain s' h' where r: "playNow (Some b1) (Some c1) (s, h) = (s', h')"
        by (cases "playNow (Some b1) (Some c1) (s, h)")
      have "commit s (s', h') = (s1, h1)" using d1 r by (simp add: dispatch_def)
      from commit_fields[OF this] playAudio_host(1)[OF r] show ?thesis by simp
    qed
    show ?thesis
      unfolding d1 d2 using F1(1,2) F2(2,3) F2(4)[OF F1(2)] len by simp
  qed
  show ?thesis using one replace twice by blast
qed

lemma sequential_one_active_demo:
  "active (snd demoPlaying) = [0]
   \<and> stopLog (snd (dispatch (playNow (Some demoBuffer) (Some 0)) demoPlaying)) = [0]
   \<and> srcState (sources (snd (dispatch (playNow (Some demoBuffer) (Some 0)) demoPlaying)) ! 0)
        = Stopped
   \<and> active (snd (dispatch (playNow (Some demoBuffer) (Some 0)) demoPlaying)) = [1]
   \<and> sourceNode (fst (dispatch (playNow (Some demoBuffer) (Some 0)) demoPlaying)) = Some 1
   \<and> active (snd (dispatch (playNow (Some demoBuffer) (Some 0))
                      (dispatch (playNow (Some demoBuffer) (Some 0)) demoPlaying))) = [2]
   \<and> 1 \<in> set (stopLog (snd (dispatch (playNow (Some demoBuffer) (Some 0))
                      (dispatch (playNow (Some demoBuffer) (Some 0)) demoPlaying))))"
  using sequential_one_active[of "fst demoPlaying" "snd demoPlaying"] reachable_demoPlaying
  by (simp add: demoPlaying_fields numeral_2_eq_2)

subsection \<open>The start time in the runs of the page\<close>

text \<open>
  In no run of the page, sequential or not, is the start time kept in the ref after the
  clock: \<^verbatim>\<open>playAudio\<close> sets it to the clock, and the clock does not go back.
\<close>

lemma commit_clock:
  assumes "commit prev (s1, h1) = (s2, h2)"
  shows "startTimeRef s2 = startTimeRef s1" "currentTime h2 = currentTime h1"
  using commit_fields[OF assms] by simp_all

lemma playAudio_clock:
  assumes "playAudio r b c (s, h) = (s', h')" and "startTimeRef s \<le> currentTime h"
  shows "startTimeRef s' \<le> currentTime h'"
  using assms
  by (cases b; cases c)
    (auto simp add: playAudio_def Let_def createBiquadFilter_def createBufferSource_def
      start_def try_catch_def split: option.splits prod.splits)

lemma fold_updateKaraoke_same:
  "sameButCursor (s, h) (fold (\<lambda>(i, c). updateKaraoke c) q (s, h))"
proof (induction q arbitrary: s h)
  case Nil
  show ?case by simp
next
  case (Cons a q)
  obtain i k where a: "a = (i, k)" by (cases a)
  obtain s1 h1 where u: "updateKaraoke k (s, h) = (s1, h1)" by (cases "updateKaraoke k (s, h)")
  have "sameButCursor (s, h) (s1, h1)" using updateKaraoke_same[of s h k] u by simp
  then show ?case using Cons.IH[of s1 h1] by (simp add: a u) (blast intro: sameButCursor_trans)
qed

lemma handler_clock:
  assumes "startTimeRef s \<le> currentTime h"
  shows "startTimeRef (fst (handleStop (s, h))) \<le> currentTime (snd (handleStop (s, h)))"
    and "startTimeRef (fst (ended p (s, h))) \<le> currentTime (snd (ended p (s, h)))"
    and "startTimeRef (fst (animationFrame (s, h))) \<le> currentTime (snd (animationFrame (s, h)))"
    and "0 \<le> dt \<Longrightarrow>
         startTimeRef (fst (advance dt (s, h))) \<le> currentTime (snd (advance dt (s, h)))"
proof -
  show "startTimeRef (fst (handleStop (s, h))) \<le> currentTime (snd (handleStop (s, h)))"
    using assms by (simp add: handleStop_def try_catch_def split: option.splits)
  show "startTimeRef (fst (ended p (s, h))) \<le> currentTime (snd (ended p (s, h)))"
    using assms by (simp add: ended_def)
  have "sameButCursor (s, h) (s, h\<lparr>rafQueue := []\<rparr>)" by (simp add: sameButCursor_def)
  then have "sameButCursor (s, h) (animationFrame (s, h))"
    unfolding animationFrame_def prod.case
    using fold_updateKaraoke_same[of s "h\<lparr>rafQueue := []\<rparr>" "rafQueue h"]
    by (blast intro: sameButCursor_trans)
  then show "startTimeRef (fst (animationFrame (s, h))) \<le> currentTime (snd (animationFrame (s, h)))"
    using assms by (simp add: sameButCursor_def)
  show "startTimeRef (fst (advance dt (s, h))) \<le> currentTime (snd (advance dt (s, h)))"
    if "0 \<le> dt"
    using assms that by (simp add: advance_def)
qed

lemma dispatch_clock:
  assumes "startTimeRef (fst (f (s, h))) \<le> currentTime (snd (f (s, h)))"
  shows "startTimeRef (fst (dispatch f (s, h))) \<le> currentTime (snd (dispatch f (s, h)))"
proof -
  obtain s1 h1 where f: "f (s, h) = (s1, h1)" by (cases "f (s, h)")
  obtain s2 h2 where c: "commit s (s1, h1) = (s2, h2)" by (cases "commit s (s1, h1)")
  show ?thesis using assms commit_clock[OF c] by (simp add: dispatch_def f c)
qed

lemma fire_clock:
  assumes "startTimeRef s \<le> currentTime h" and "admissible e"
  shows "startTimeRef (fst (fire e (s, h))) \<le> currentTime (snd (fire e (s, h)))"
proof (cases e)
  case (PlayAudio b c)
  obtain s1 h1 where p: "playAudio s b c (s, h) = (s1, h1)" by (cases "playAudio s b c (s, h)")
  have "startTimeRef (fst (playNow b c (s, h))) \<le> currentTime (snd (playNow b c (s, h)))"
    using playAudio_clock[OF p assms(1)] by (simp add: playNow_def p)
  then show ?thesis unfolding PlayAudio fire.simps by (rule dispatch_clock)
next
  case HandleStop
  show ?thesis unfolding HandleStop fire.simps
    by (rule dispatch_clock) (rule handler_clock(1)[OF assms(1)])
next
  case (SourceEnded p)
  show ?thesis unfolding SourceEnded fire.simps
    by (rule dispatch_clock) (rule handler_clock(2)[OF assms(1)])
next
  case (Advance dt)
  then show ?thesis using assms handler_clock(4)[OF assms(1), of dt] by simp
next
  case AnimationFrame
  then show ?thesis using handler_clock(3)[OF assms(1)] by simp
qed (auto intro!: dispatch_clock simp add: assms(1) setPlaybackRate_def setPitchShift_def
      setEmphasis_def setText_def setAudioBuffer_def setAudioContext_def)

lemma rendered_clock:
  assumes "startTimeRef (app (f pg)) \<le> currentTime (host (f pg))"
  shows "startTimeRef (app (rendered f pg)) \<le> currentTime (host (rendered f pg))"
proof -
  obtain s2 h2 where c: "commit (app pg) (app (f pg), host (f pg)) = (s2, h2)"
    by (cases "commit (app pg) (app (f pg), host (f pg))")
  show ?thesis using assms commit_clock[OF c] by (simp add: rendered_def Let_def c)
qed

lemma initAudio_clock:
  "startTimeRef (fst (initAudio ctx r (s, h))) = startTimeRef s"
  "currentTime (snd (initAudio ctx r (s, h))) = currentTime h"
  by (simp_all add: initAudio_def createBiquadFilter_def Let_def split: option.splits)

lemma settle_clock:
  assumes "settle t out = Some f" and "startTimeRef (app pg) \<le> currentTime (host pg)"
  shows "startTimeRef (app (f pg)) \<le> currentTime (host (f pg))"
proof (cases t)
  case (AwaitSpeech r ctx)
  then show ?thesis
    using assms
    by (cases out) (auto simp add: handleSynthesis_resolved_def handleSynthesis_catch_def Let_def
        split: option.splits)
next
  case (AwaitSave r ctx buffer)
  obtain s1 h1 where p: "playAudio r (Some buffer) (Some ctx) (app pg, host pg) = (s1, h1)"
    by (cases "playAudio r (Some buffer) (Some ctx) (app pg, host pg)")
  show ?thesis
    using assms AwaitSave playAudio_clock[OF p assms(2)]
    by (cases out) (auto simp add: handleSynthesis_saved_def handleSynthesis_catch_def Let_def p)
next
  case AwaitText
  then show ?thesis
    using assms
    by (cases out) (auto simp add: handleOptimization_resolved_def handleOptimization_catch_def)
next
  case Timeout
  then show ?thesis using assms by (cases out) (auto simp add: handleOptimization_timeout_def)
qed

lemma onPage_clock:
  assumes "startTimeRef (app pg) \<le> currentTime (host pg)" and "admissible e"
  shows "startTimeRef (app (onPage (fire e) pg)) \<le> currentTime (host (onPage (fire e) pg))"
proof -
  obtain s1 h1 where f: "fire e (app pg, host pg) = (s1, h1)" by (cases "fire e (app pg, host pg)")
  show ?thesis using fire_clock[OF assms, unfolded f] by (simp add: onPage_def f)
qed

lemma handleOptimization_clock:
  assumes "startTimeRef (app pg) \<le> currentTime (host pg)"
  shows "startTimeRef (app (handleOptimization deep ctx pg))
         \<le> currentTime (host (handleOptimization deep ctx pg))"
proof -
  obtain s1 h1 where i: "initAudio ctx (app pg) (app pg, host pg) = (s1, h1)"
    by (cases "initAudio ctx (app pg) (app pg, host pg)")
  have "startTimeRef s1 = startTimeRef (app pg)" "currentTime h1 = currentTime (host pg)"
    using initAudio_clock[of ctx "app pg" "app pg" "host pg"] by (simp_all add: i)
  then show ?thesis using assms by (simp add: handleOptimization_def Let_def i)
qed

lemma handleSynthesis_clock:
  assumes "startTimeRef (app pg) \<le> currentTime (host pg)"
  shows "startTimeRef (app (handleSynthesis ctx1 ctx2 pg))
         \<le> currentTime (host (handleSynthesis ctx1 ctx2 pg))"
proof -
  obtain s1 h1 where i: "initAudio ctx1 (app pg) (app pg, host pg) = (s1, h1)"
    by (cases "initAudio ctx1 (app pg) (app pg, host pg)")
  have c: "startTimeRef s1 = startTimeRef (app pg)" "currentTime h1 = currentTime (host pg)"
    using initAudio_clock[of ctx1 "app pg" "app pg" "host pg"] by (simp_all add: i)
  show ?thesis
    using assms c
    by (cases "sourceNode (app pg)"; cases "audioContext (app pg)")
      (simp_all add: handleSynthesis_def Let_def i try_catch_def)
qed

lemma perform_clock:
  assumes "perform a pg = Some pg'" and "startTimeRef (app pg) \<le> currentTime (host pg)"
  shows "startTimeRef (app pg') \<le> currentTime (host pg')"
proof (cases a)
  case (TypeApiKey v)
  then have "pg' = rendered (\<lambda>pg. pg\<lparr>tempApiKey := v\<rparr>) pg"
    using assms(1) by (simp split: if_splits)
  then show ?thesis using assms(2) by (simp add: rendered_clock)
next
  case ClickConnect
  then have "pg' = rendered handleConnectApi pg" using assms(1) by (simp split: if_splits)
  then show ?thesis using assms(2) by (simp add: rendered_clock handleConnectApi_def)
next
  case ClickDisconnect
  then have "pg' = rendered handleDisconnectApi pg" using assms(1) by (simp split: if_splits)
  then show ?thesis using assms(2) by (simp add: rendered_clock handleDisconnectApi_def)
next
  case (TypeText v)
  then have "pg' = onPage (fire (SetText v)) pg" using assms(1) by (simp split: if_splits)
  then show ?thesis using onPage_clock[OF assms(2), of "SetText v"] by simp
next
  case (Slide e)
  then have p: "pg' = onPage (fire e) pg" and s: "isSlider e"
    using assms(1) by (simp_all split: if_splits)
  have "admissible e" using s by (cases e) (simp_all add: isSlider_def)
  then show ?thesis unfolding p by (rule onPage_clock[OF assms(2)])
next
  case (ClickOptimize deep ctx)
  then have "pg' = rendered (handleOptimization deep ctx) pg"
    using assms(1) by (simp split: if_splits)
  then show ?thesis using handleOptimization_clock[OF assms(2)] by (simp add: rendered_clock)
next
  case (ClickSynthesize ctx1 ctx2)
  then have "pg' = rendered (handleSynthesis ctx1 ctx2) pg"
    using assms(1) by (simp split: if_splits)
  then show ?thesis using handleSynthesis_clock[OF assms(2)] by (simp add: rendered_clock)
next
  case ClickStop
  then have "pg' = onPage (fire HandleStop) pg" using assms(1) by (simp split: if_splits)
  then show ?thesis using onPage_clock[OF assms(2), of HandleStop] by simp
next
  case (Settle i out)
  let ?pg = "pg\<lparr>pending := take i (pending pg) @ drop (Suc i) (pending pg)\<rparr>"
  from Settle obtain f where f: "settle (pending pg ! i) out = Some f" and p: "pg' = rendered f ?pg"
    using assms(1) by (auto split: if_splits option.splits)
  have "startTimeRef (app ?pg) \<le> currentTime (host ?pg)" using assms(2) by simp
  then have "startTimeRef (app (f ?pg)) \<le> currentTime (host (f ?pg))"
    by (rule settle_clock[OF f])
  then show ?thesis unfolding p by (rule rendered_clock)
next
  case (Deliver e)
  then have p: "pg' = onPage (fire e) pg" and s: "isHostEvent e"
    using assms(1) by (simp_all split: if_splits)
  have "admissible e" using s by (cases e) (simp_all add: isHostEvent_def)
  then show ?thesis unfolding p by (rule onPage_clock[OF assms(2)])
qed

lemma run_clock:
  assumes "run as pg = Some pg'" and "startTimeRef (app pg) \<le> currentTime (host pg)"
  shows "startTimeRef (app pg') \<le> currentTime (host pg')"
  using assms
proof (induction as arbitrary: pg)
  case Nil
  then show ?case by simp
next
  case (Cons a as)
  then obtain pg1 where p: "perform a pg = Some pg1" and r: "run as pg1 = Some pg'"
    by (auto split: option.splits)
  show ?case using Cons.IH[OF r perform_clock[OF p Cons.prems(2)]] .
qed

lemma run_initial_clock:
  "run as initialPage = Some pg \<Longrightarrow> startTimeRef (app pg) \<le> currentTime (host pg)"
proof -
  assume r: "run as initialPage = Some pg"
  have "startTimeRef (app initialPage) \<le> currentTime (host initialPage)"
    by (simp add: initialPage_def initialApp_def initialHost_def)
  then show ?thesis by (rule run_clock[OF r])
qed

subsection \<open>The run with two syntheses\<close>

lemma trim_key: "trim (str ''key'') = str ''key''"
  by (simp add: trim_def str_def isWhiteSpace_def)

lemma trim_text: "trim (str ''A B C D'') = str ''A B C D''"
  by (simp add: trim_def str_def isWhiteSpace_def)

lemma str_nonempty: "str ''key'' \<noteq> []" "str ''A B C D'' \<noteq> []"
  by (simp_all add: str_def)

lemma upt_0_2: "[0..<2] = [0, 1]"
  by (simp add: upt_rec)


section \<open>Claims about playback\<close>

text \<open>
  C2. The page calls \<^verbatim>\<open>playAudio\<close> only from the continuation of \<^verbatim>\<open>handleSynthesis\<close>,
  where \<^verbatim>\<open>sourceNode\<close> is that of the render in which the button was clicked. In the run
  \<open>overlap\<close> every action is possible when it is taken; both clicks on Synthesize happen
  before any source exists, so neither call of \<^verbatim>\<open>playAudio\<close> sees a source to stop: at
  the end the sources 0 and 1 are both playing, no \<^verbatim>\<open>stop()\<close> was ever called, and the
  component refers to source 1 only.
\<close>

theorem overlapping_syntheses:
  "map_option (\<lambda>pg. (active (host pg), stopLog (host pg), sourceNode (app pg)))
     (run overlap initialPage) = Some ([0, 1], [], Some 1)"
  by (simp add: overlap_def initialPage_def initialApp_def initialHost_def rendered_def onPage_def
      handleConnectApi_def handleOptimization_def handleOptimization_resolved_def
      handleOptimization_timeout_def handleSynthesis_def handleSynthesis_resolved_def
      handleSynthesis_saved_def initAudio_def playAudio_def commit_def paramDeps_def
      karaokeDeps_def paramEffect_def karaokeEffect_def dispatch_def setText_def
      createBiquadFilter_def createBufferSource_def updSource_def updFilter_def start_def
      requestAnimationFrame_def cancelAnimationFrame_def Let_def trim_key trim_text str_nonempty
      audioBufferToWav_bytes active_def upt_0_2 isHostEvent_def isSlider_def
      del: updSource_simps updFilter_simps)

text \<open>
  C3, as amended. While playing, the karaoke effect schedules a callback that holds the
  words of the transcript and the duration \<open>bufferDuration / rate\<close>, computed in double
  arithmetic: a positive finite double \<open>D\<close>, as it is for every buffer of at least one
  frame and every rate of the slider (lemma \<open>duration_finite\<close>). Run at any moment that
  is not before the start, as every moment of a run is (lemma \<open>run_initial_clock\<close>), the
  callback sets the cursor to \<open>floor (clamp (elapsed / duration) 0 1 * wordCount)\<close>
  evaluated in double arithmetic: \<open>elapsed\<close> is the difference of clock and start time
  rounded, and the quotient and the product are rounded in turn. For the words A, B, C,
  D, a buffer of 4 seconds and rate 1, the cursor is 2 at 2 seconds.
\<close>

theorem karaoke_index:
  assumes "isPlaying s" and "audioBuffer s = Some b" and "audioContext s = Some c"
    and "div64 (duration b) (Finite (playbackRate s)) = Finite D" and "0 < D"
  shows "\<exists>handle k.
      rafQueue (snd (karaokeEffect (s, h)))
        = filter (\<lambda>(i, cb). i \<noteq> animationFrameRef s) (rafQueue h) @ [(handle, k)]
      \<and> kWords k = split_ws (stripTags (text' s))
      \<and> kDuration k = div64 (duration b) (Finite (playbackRate s))
      \<and> (\<forall>s' h'. startTimeRef s' \<le> currentTime h' \<longrightarrow>
            currentWordIndex (fst (updateKaraoke k (s', h')))
              = Math_floor (round64
                  (clamp (fl (fl (currentTime h' - startTimeRef s') / D)) 0 1
                   * of_nat (length (kWords k)))))
      \<and> (kWords k = [str ''A'', str ''B'', str ''C'', str ''D''] \<and> duration b = Finite 4
           \<and> playbackRate s = 1 \<longrightarrow>
           (\<forall>s' h'. currentTime h' - startTimeRef s' = 2 \<longrightarrow>
              currentWordIndex (fst (updateKaraoke k (s', h'))) = Finite 2))"
proof -
  let ?k = "\<lparr>kWords = split_ws (stripTags (text' s)),
             kDuration = div64 (duration b) (Finite (playbackRate s))\<rparr>"
  have kd: "kDuration ?k = Finite D" using assms(4) by simp
  have D: "D < 2 ^ 1024" using div64_Finite_bound[OF assms(4)] by simp
  have idx: "currentWordIndex (fst (updateKaraoke ?k (s', h')))
               = indexAt ?k (currentTime h' - startTimeRef s')" for s' h'
    by (simp add: updateKaraoke_eq)
  have "currentWordIndex (fst (updateKaraoke ?k (s', h')))
          = Math_floor (round64 (clamp (fl (fl (currentTime h' - startTimeRef s') / D)) 0 1
                                 * of_nat (length (kWords ?k))))"
    if "startTimeRef s' \<le> currentTime h'" for s' h'
    unfolding idx using that by (intro indexAt_clamp[OF kd assms(5) D]) simp
  moreover have "currentWordIndex (fst (updateKaraoke ?k (s', h'))) = Finite 2"
    if w: "kWords ?k = [str ''A'', str ''B'', str ''C'', str ''D'']" and d: "duration b = Finite 4"
      and r: "playbackRate s = 1" and e: "currentTime h' - startTimeRef s' = 2" for s' h'
  proof -
    have "D = 4" using assms(4) by (simp add: d r div64_by_1)
    then show ?thesis
      unfolding idx e using indexAt_clamp[OF kd assms(5) D, of 2] w
      by (simp add: clamp_def fl_numeral fl_half round64_numeral)
  qed
  ultimately show ?thesis
    unfolding karaokeEffect_playing[OF assms(1,2,3)]
    by (intro exI[of _ "nextFrame h"] exI[of _ ?k]) simp
qed

theorem karaoke_index_witness:
  "\<exists>k. kWords k = [str ''A'', str ''B'', str ''C'', str ''D''] \<and> kDuration k = Finite 4
      \<and> snd (last (rafQueue (snd (karaokeEffect demoPlaying)))) = k
      \<and> currentWordIndex (fst (updateKaraoke k
           (fst demoPlaying, (snd demoPlaying)\<lparr>currentTime := 2\<rparr>))) = Finite 2
      \<and> currentWordIndex (fst (updateKaraoke k
           (fst demoPlaying, (snd demoPlaying)\<lparr>currentTime := 3\<rparr>))) = Finite 3"
proof -
  have d: "div64 (duration demoBuffer) (Finite (playbackRate (fst demoPlaying))) = Finite 4"
    by (simp add: duration_demoBuffer demoPlaying_fields div64_by_1)
  have p: "(0 :: rat) < 4" by simp
  from karaoke_index[OF demoPlaying_fields(4,7,8) d p, of "snd demoPlaying"]
  obtain handle k where k:
    "rafQueue (snd (karaokeEffect (fst demoPlaying, snd demoPlaying)))
       = filter (\<lambda>(i, cb). i \<noteq> animationFrameRef (fst demoPlaying)) (rafQueue (snd demoPlaying))
         @ [(handle, k)]"
    "kWords k = split_ws (stripTags (text' (fst demoPlaying)))"
    "kDuration k = div64 (duration demoBuffer) (Finite (playbackRate (fst demoPlaying)))"
    "\<forall>s' h'. startTimeRef s' \<le> currentTime h' \<longrightarrow>
        currentWordIndex (fst (updateKaraoke k (s', h')))
          = Math_floor (round64 (clamp (fl (fl (currentTime h' - startTimeRef s') / 4)) 0 1
                                 * of_nat (length (kWords k))))"
    by blast
  have w: "kWords k = [str ''A'', str ''B'', str ''C'', str ''D'']"
    using k(2) by (simp add: demoPlaying_fields words_demo)
  have du: "kDuration k = Finite 4" using k(3) d by simp
  have l: "snd (last (rafQueue (snd (karaokeEffect demoPlaying)))) = k"
    using k(1) by simp
  have i2: "currentWordIndex (fst (updateKaraoke k
           (fst demoPlaying, (snd demoPlaying)\<lparr>currentTime := 2\<rparr>))) = Finite 2"
    using k(4)[rule_format, of "fst demoPlaying" "(snd demoPlaying)\<lparr>currentTime := 2\<rparr>"]
    by (simp add: w demoPlaying_fields clamp_def fl_numeral fl_half round64_numeral)
  have i3: "currentWordIndex (fst (updateKaraoke k
           (fst demoPlaying, (snd demoPlaying)\<lparr>currentTime := 3\<rparr>))) = Finite 3"
    using k(4)[rule_format, of "fst demoPlaying" "(snd demoPlaying)\<lparr>currentTime := 3\<rparr>"]
    by (simp add: w demoPlaying_fields clamp_def fl_numeral fl_quarters round64_numeral)
  show ?thesis using w du l i2 i3 by blast
qed

text \<open>
  The claim as stated, with the quotient and the product taken exactly, fails: a buffer
  of one second at 24000 Hz played at rate 1.5 with four words, started at clock 0 and
  observed when the clock is the double of \<open>16000 / 24000\<close>. The callback computes index
  4 and the exact formula gives 3.
\<close>

theorem karaoke_index_exact_fails:
  "snd (last (rafQueue (snd (karaokeEffect fastPlaying)))) = fastClosure
   \<and> currentWordIndex (fst (updateKaraoke fastClosure
        (fst fastPlaying, (snd fastPlaying)\<lparr>currentTime := fl (16000 / 24000)\<rparr>))) = Finite 4
   \<and> \<lfloor>clamp ((fl (16000 / 24000) - startTimeRef (fst fastPlaying))
               / ((24000 / 24000) / (3 / 2))) 0 1
       * of_nat (length (kWords fastClosure))\<rfloor> = 3"
proof -
  have c: "fl (16000 / 24000) = 6004799503160661 / 9007199254740992"
    using fl_two_thirds by simp
  have k: "fastClosure = \<lparr>kWords = [str ''A'', str ''B'', str ''C'', str ''D''],
                           kDuration = Finite (6004799503160661 / 9007199254740992)\<rparr>"
    by (simp add: fastClosure_def duration_shortBuffer div64_nonneg round64_nonneg
        fl_two_thirds)
  have e: "snd (last (rafQueue (snd (karaokeEffect fastPlaying)))) = fastClosure"
    by (simp add: fastPlaying_def demoPlaying_def karaokeEffect_playing words_demo
        fastClosure_def)
  have r: "round64 (6004799503160661 / 9007199254740992)
           = Finite (6004799503160661 / 9007199254740992)"
    using fl_double_two_thirds by (simp add: round64_nonneg)
  have i: "indexAt fastClosure (6004799503160661 / 9007199254740992) = Finite 4"
    unfolding k by (simp add: indexAt_def r div64_nonneg mul64_nonneg Math_min64_Finite
        round64_numeral)
  have u: "currentWordIndex (fst (updateKaraoke fastClosure
        (fst fastPlaying, (snd fastPlaying)\<lparr>currentTime := fl (16000 / 24000)\<rparr>))) = Finite 4"
    unfolding c using i by (simp add: updateKaraoke_eq fastPlaying_def demoPlaying_def)
  have x: "\<lfloor>clamp ((fl (16000 / 24000) - startTimeRef (fst fastPlaying))
               / ((24000 / 24000) / (3 / 2))) 0 1
       * of_nat (length (kWords fastClosure))\<rfloor> = 3"
    unfolding c k by (simp add: fastPlaying_def demoPlaying_def clamp_def floor_rat_numeral_div)
  show ?thesis using e u x by simp
qed



text \<open>
  C8. \<^verbatim>\<open>handleStop\<close> with no source node does nothing at all. With a source node that
  has ended, its callback having run, \<^verbatim>\<open>stop()\<close> does not raise and the state is
  unchanged (the call is recorded in the trace). In any state a second \<^verbatim>\<open>handleStop\<close>
  changes nothing but the trace. \<^verbatim>\<open>handleStop\<close> is a function that returns a state: the
  exception \<^verbatim>\<open>stop()\<close> can raise is dropped by the \<^verbatim>\<open>try\<close>.
\<close>

theorem handleStop_noop:
  "(sourceNode s = None \<longrightarrow> dispatch handleStop (s, h) = (s, h))
   \<and> (sourceNode s = Some p \<and> p < length (sources h) \<and> srcState (sources h ! p) = Ended
        \<and> \<not> isPlaying s \<longrightarrow>
        snd (stop p h) = None
        \<and> dispatch handleStop (s, h) = (s, h\<lparr>stopLog := stopLog h @ [p]\<rparr>))
   \<and> (sourceNode s = Some p \<longrightarrow>
        dispatch handleStop (dispatch handleStop (s, h))
          = (fst (dispatch handleStop (s, h)),
             (snd (dispatch handleStop (s, h)))
               \<lparr>stopLog := stopLog (snd (dispatch handleStop (s, h))) @ [p]\<rparr>))"
proof (intro conjI impI)
  assume "sourceNode s = None"
  then show "dispatch handleStop (s, h) = (s, h)"
    by (simp add: dispatch_def handleStop_def commit_id)
next
  assume a: "sourceNode s = Some p \<and> p < length (sources h) \<and> srcState (sources h ! p) = Ended
        \<and> \<not> isPlaying s"
  then show "snd (stop p h) = None" by (simp add: stop_def Let_def)
  have "fst (stop p h) = h\<lparr>stopLog := stopLog h @ [p]\<rparr>"
    using a by (intro stop_not_playing) simp
  then show "dispatch handleStop (s, h) = (s, h\<lparr>stopLog := stopLog h @ [p]\<rparr>)"
    using a by (simp add: dispatch_handleStop_idle)
next
  assume sp: "sourceNode s = Some p"
  obtain s1 h1 where d: "dispatch handleStop (s, h) = (s1, h1)"
    by (cases "dispatch handleStop (s, h)")
  have c: "commit s (s\<lparr>isPlaying := False\<rparr>, fst (stop p h)) = (s1, h1)"
    using d sp by (simp add: dispatch_def handleStop_def try_catch_def)
  note F = commit_fields[OF c]
  have s1: "\<not> isPlaying s1" "sourceNode s1 = Some p" using F sp by simp_all
  have "p < length (sources h1) \<longrightarrow> srcState (sources h1 ! p) \<noteq> Playing"
    using F by (auto simp add: stop_nth)
  then have "fst (stop p h1) = h1\<lparr>stopLog := stopLog h1 @ [p]\<rparr>" by (rule stop_not_playing)
  then have "dispatch handleStop (s1, h1) = (s1, h1\<lparr>stopLog := stopLog h1 @ [p]\<rparr>)"
    using s1 by (simp add: dispatch_handleStop_idle)
  then show "dispatch handleStop (dispatch handleStop (s, h))
          = (fst (dispatch handleStop (s, h)),
             (snd (dispatch handleStop (s, h)))
               \<lparr>stopLog := stopLog (snd (dispatch handleStop (s, h))) @ [p]\<rparr>)"
    by (simp add: d)
qed

theorem handleStop_noop_witness:
  "dispatch handleStop (initialApp, initialHost) = (initialApp, initialHost)
   \<and> snd (stop 0 (snd demoEnded)) = None
   \<and> dispatch handleStop demoEnded = (fst demoEnded, (snd demoEnded)\<lparr>stopLog := [0]\<rparr>)
   \<and> dispatch handleStop (dispatch handleStop demoPlaying)
       = (fst (dispatch handleStop demoPlaying),
          (snd (dispatch handleStop demoPlaying))\<lparr>stopLog := [0, 0]\<rparr>)"
  using handleStop_noop[of initialApp initialHost 0]
    handleStop_noop[of "fst demoEnded" "snd demoEnded" 0]
    handleStop_noop[of "fst demoPlaying" "snd demoPlaying" 0]
  by (simp add: demoEnded_fields demoPlaying_fields initialApp_def stopLog_demo_stop)



text \<open>
  C10. When the callback runs with \<open>elapsed \<ge> duration\<close>, \<open>elapsed\<close> being the difference
  the callback computes and the duration a positive finite double, the cursor becomes
  \<open>wordCount\<close>, which is not below \<open>wordCount\<close> and so is the index of no word; no
  further callback is scheduled, so the cursor keeps this value over all later animation
  frames, until \<^verbatim>\<open>handleStop\<close> or the \<^verbatim>\<open>ended\<close> event resets it to -1. The word count
  is below \<open>2 ^ 53\<close>, as the length of every array is. When the exact difference of
  clock and start time is at least the duration, so is the computed one (lemmas
  \<open>div64_Finite_double\<close> and \<open>elapsed_reached\<close>).
\<close>

theorem karaoke_end_index:
  assumes "kDuration k = Finite D" and "0 < D" and "rafQueue h = [(i, k)]"
    and "D \<le> fl (currentTime h - startTimeRef s)" and "length (kWords k) < 2 ^ 53"
  shows "currentWordIndex (fst (animationFrame (s, h))) = Finite (of_nat (length (kWords k)))
       \<and> \<not> lt64 (currentWordIndex (fst (animationFrame (s, h))))
                 (Finite (of_nat (length (kWords k))))
       \<and> rafQueue (snd (animationFrame (s, h))) = []
       \<and> (\<forall>dts. karaokeRun dts (animationFrame (s, h))
                  = replicate (length dts) (Finite (of_nat (length (kWords k)))))
       \<and> (isPlaying s \<and> sourceNode s = Some p
            \<longrightarrow> currentWordIndex (fst (dispatch handleStop (animationFrame (s, h))))
                = Finite (- 1))
       \<and> (isPlaying s \<and> p < length (sources h) \<and> srcState (sources h ! p) = Playing
            \<and> srcOnended (sources h ! p)
            \<longrightarrow> currentWordIndex (fst (dispatch (ended p) (animationFrame (s, h))))
                = Finite (- 1))"
proof -
  obtain s1 h1 where x1: "animationFrame (s, h) = (s1, h1)" by (cases "animationFrame (s, h)")
  have q: "\<forall>(i, c) \<in> set (rafQueue h). c = k" using assms(3) by simp
  note T = animationFrame_tick[OF q, of s, unfolded x1, simplified]
  have n: "\<not> lt64 (round64 (currentTime h - startTimeRef s)) (kDuration k)"
    unfolding assms(1) using assms(2,4) by (rule lt64_reached)
  have c: "currentWordIndex s1 = Finite (of_nat (length (kWords k)))"
    using T assms(3) indexAt_end[OF assms(1,2,4,5)] by simp
  have e: "rafQueue h1 = []" using T n by simp
  have same: "isPlaying s1 = isPlaying s" "sourceNode s1 = sourceNode s" "sources h1 = sources h"
    using T by (simp_all add: sameButCursor_def)
  have "karaokeRun dts (s1, h1) = replicate (length dts) (Finite (of_nat (length (kWords k))))"
    for dts
    using karaokeRun_idle[OF e, of dts s1] c by simp
  then show ?thesis
    unfolding x1 using c e same by (simp add: dispatch_handleStop dispatch_ended lt64_def)
qed

theorem karaoke_end_index_witness:
  "currentWordIndex (fst (animationFrame (fst demoPlaying, (snd demoPlaying)\<lparr>currentTime := 5\<rparr>)))
     = Finite 4
   \<and> rafQueue (snd (animationFrame (fst demoPlaying, (snd demoPlaying)\<lparr>currentTime := 5\<rparr>)))
     = []
   \<and> karaokeRun [1, 1]
        (animationFrame (fst demoPlaying, (snd demoPlaying)\<lparr>currentTime := 5\<rparr>))
      = [Finite 4, Finite 4]
   \<and> currentWordIndex (fst (dispatch handleStop
        (animationFrame (fst demoPlaying, (snd demoPlaying)\<lparr>currentTime := 5\<rparr>))))
      = Finite (- 1)
   \<and> currentWordIndex (fst (dispatch (ended 0)
        (animationFrame (fst demoPlaying, (snd demoPlaying)\<lparr>currentTime := 5\<rparr>))))
      = Finite (- 1)"
  using karaoke_end_index[of demoClosure 4 "(snd demoPlaying)\<lparr>currentTime := 5\<rparr>" 1
                             "fst demoPlaying" 0]
  by (simp add: demoPlaying_fields demoClosure_def fl_numeral)

end
